theory Spec2Isabelle
  imports Main "HOL-Library.Sublist" "HOL-Library.Word"
begin

section \<open>Symbolic expressions: data model\<close>

text \<open>
  The program is \<^verbatim>\<open>src/expressions/expressions.py\<close>. Its expressions are Python
  objects that refer to each other, and the traversal memoises by object identity, so the
  model keeps an explicit store: a list of nodes, where the position of a node is its
  identity. A Python value is either a primitive or a reference into the store.
\<close>

text \<open>
  The Python values the model distinguishes. \<open>PInt\<close>, \<open>PBool\<close>, \<open>PFloat\<close> and
  \<open>PComplex\<close> are the instances of \<^verbatim>\<open>numbers.Number\<close> (a float is carried as its 64
  bits, a complex number as two floats; no arithmetic is ever done on them). \<open>PRef r\<close> is
  a reference to the object at position \<open>r\<close> of the store. All of them are hashable.
\<close>

datatype pyval =
    PInt int
  | PBool bool
  | PFloat "64 word"
  | PComplex "64 word" "64 word"
  | PStr string
  | PNone
  | PRef nat

text \<open>
  The class of an object. The seven concrete classes are the ones registered with
  \<^verbatim>\<open>differentiate\<close>. \<open>DerivedK name k\<close> is a class with the \<^verbatim>\<open>__name__\<close> \<open>name\<close>
  that is declared as \<^verbatim>\<open>class name(k)\<close>, for instance a caller's
  \<^verbatim>\<open>class MyAdd(Add)\<close>. \<open>OtherK name\<close> is a class declared on none of these: the bases
  \<^verbatim>\<open>Expression\<close>, \<^verbatim>\<open>Terminal\<close> and \<^verbatim>\<open>Operator\<close>, a caller's class on one of
  them, and the type of a primitive value. Classes have one parent.
\<close>

datatype kind =
    NumberK | SymbolK | AddK | SubK | MulK | DivK | PowK
  | DerivedK string kind
  | OtherK string

text \<open>
  An object: its class, its \<^verbatim>\<open>value\<close> attribute (absent on operators) and its
  \<^verbatim>\<open>operands\<close> tuple.
\<close>

record node =
  kind :: kind
  payload :: "pyval option"
  operands :: "pyval list"

text \<open>
  The store. The record is extensible, so that a caller's function can carry state of its
  own next to the nodes.
\<close>

record store =
  nodes :: "node list"

datatype error =
    TypeError
  | AttributeError
  | KeyError
  | IndexError
  | NotImplementedError string
  | OtherError string
  | IllFormedStore

text \<open>
  \<open>IllFormedStore\<close> has no Python counterpart. It makes the model total on stores that
  Python cannot reach: a reference past the end of the store (a Python reference always
  denotes a live object), or a Symbol whose value is not text (\<^verbatim>\<open>Symbol.__init__\<close> rules
  it out). The hypotheses \<open>heap_ok\<close> and \<open>differentiable\<close> below exclude them.
\<close>

type_synonym kwargs = "string \<rightharpoonup> pyval"

text \<open>\<^verbatim>\<open>isinstance(x, numbers.Number)\<close>\<close>

fun is_Num :: "pyval \<Rightarrow> bool" where
  "is_Num (PInt _) = True"
| "is_Num (PBool _) = True"
| "is_Num (PFloat _) = True"
| "is_Num (PComplex _ _) = True"
| "is_Num _ = False"

text \<open>\<^verbatim>\<open>isinstance(x, str)\<close>\<close>

fun is_str :: "pyval \<Rightarrow> bool" where
  "is_str (PStr _) = True"
| "is_str _ = False"

text \<open>
  A new object gets the next free position. A node enters the store when its
  \<^verbatim>\<open>operands\<close> are assigned, so the operands that \<^verbatim>\<open>Expression.__init__\<close> boxes on the
  way come before it.
\<close>

definition alloc :: "node \<Rightarrow> 'a store_scheme \<Rightarrow> pyval \<times> 'a store_scheme" where
  "alloc n w = (PRef (length (nodes w)), w\<lparr>nodes := nodes w @ [n]\<rparr>)"

subsection \<open>Constructors\<close>

text \<open>
  \<^verbatim>\<open>
  class Number(Terminal):
      def __init__(self, value):
          self.operands = ()
          if isinstance(value, Num):
              self.value = value
          else:
              raise TypeError
  \<close>
  When the constructor raises, the half-built object is unreachable and the store is
  unchanged.
\<close>

definition Number_init :: "pyval \<Rightarrow> 'a store_scheme \<Rightarrow> error + pyval \<times> 'a store_scheme" where
  "Number_init v w =
     (if is_Num v then Inr (alloc \<lparr>kind = NumberK, payload = Some v, operands = []\<rparr> w)
      else Inl TypeError)"

text \<open>
  \<^verbatim>\<open>
  class Symbol(Terminal):
      def __init__(self, value):
          self.operands = ()
          if isinstance(value, str):
              self.value = value
          else:
              raise TypeError
  \<close>
\<close>

definition Symbol_init :: "pyval \<Rightarrow> 'a store_scheme \<Rightarrow> error + pyval \<times> 'a store_scheme" where
  "Symbol_init v w =
     (if is_str v then Inr (alloc \<lparr>kind = SymbolK, payload = Some v, operands = []\<rparr> w)
      else Inl TypeError)"

text \<open>
  The loop of \<^verbatim>\<open>Expression.__init__\<close>:
  \<^verbatim>\<open>
  for x in operands:
      if isinstance(x, Num):
          x = Number(x)
      l.append(x)
  \<close>
\<close>

fun box_operands ::
  "pyval list \<Rightarrow> 'a store_scheme \<Rightarrow> error + pyval list \<times> 'a store_scheme" where
  "box_operands [] w = Inr ([], w)"
| "box_operands (x # xs) w =
     (if is_Num x then
        (case Number_init x w of
           Inl e \<Rightarrow> Inl e
         | Inr (x', w') \<Rightarrow>
             (case box_operands xs w' of
                Inl e \<Rightarrow> Inl e
              | Inr (l, w'') \<Rightarrow> Inr (x' # l, w'')))
      else
        (case box_operands xs w of
           Inl e \<Rightarrow> Inl e
         | Inr (l, w'') \<Rightarrow> Inr (x # l, w'')))"

text \<open>
  \<open>Expression_init k args\<close> is the call \<^verbatim>\<open>K(*args)\<close> of a class \<open>k\<close> that inherits
  \<^verbatim>\<open>Expression.__init__(self, *operands)\<close>: the bases and the five operators. It takes any
  number of operands.
\<close>

definition Expression_init ::
  "kind \<Rightarrow> pyval list \<Rightarrow> 'a store_scheme \<Rightarrow> error + pyval \<times> 'a store_scheme" where
  "Expression_init k args w =
     (case box_operands args w of
        Inl e \<Rightarrow> Inl e
      | Inr (l, w') \<Rightarrow> Inr (alloc \<lparr>kind = k, payload = None, operands = l\<rparr> w'))"

text \<open>The arithmetic methods of \<^verbatim>\<open>Expression\<close>, forward and reflected.\<close>

definition Expression_add :: "pyval \<Rightarrow> pyval \<Rightarrow> 'a store_scheme \<Rightarrow> error + pyval \<times> 'a store_scheme" where
  "Expression_add self other = Expression_init AddK [self, other]"

definition Expression_sub :: "pyval \<Rightarrow> pyval \<Rightarrow> 'a store_scheme \<Rightarrow> error + pyval \<times> 'a store_scheme" where
  "Expression_sub self other = Expression_init SubK [self, other]"

definition Expression_mul :: "pyval \<Rightarrow> pyval \<Rightarrow> 'a store_scheme \<Rightarrow> error + pyval \<times> 'a store_scheme" where
  "Expression_mul self other = Expression_init MulK [self, other]"

definition Expression_truediv :: "pyval \<Rightarrow> pyval \<Rightarrow> 'a store_scheme \<Rightarrow> error + pyval \<times> 'a store_scheme" where
  "Expression_truediv self other = Expression_init DivK [self, other]"

definition Expression_pow :: "pyval \<Rightarrow> pyval \<Rightarrow> 'a store_scheme \<Rightarrow> error + pyval \<times> 'a store_scheme" where
  "Expression_pow self other = Expression_init PowK [self, other]"

definition Expression_radd :: "pyval \<Rightarrow> pyval \<Rightarrow> 'a store_scheme \<Rightarrow> error + pyval \<times> 'a store_scheme" where
  "Expression_radd self other = Expression_init AddK [other, self]"

definition Expression_rsub :: "pyval \<Rightarrow> pyval \<Rightarrow> 'a store_scheme \<Rightarrow> error + pyval \<times> 'a store_scheme" where
  "Expression_rsub self other = Expression_init SubK [other, self]"

definition Expression_rmul :: "pyval \<Rightarrow> pyval \<Rightarrow> 'a store_scheme \<Rightarrow> error + pyval \<times> 'a store_scheme" where
  "Expression_rmul self other = Expression_init MulK [other, self]"

definition Expression_rtruediv :: "pyval \<Rightarrow> pyval \<Rightarrow> 'a store_scheme \<Rightarrow> error + pyval \<times> 'a store_scheme" where
  "Expression_rtruediv self other = Expression_init DivK [other, self]"

definition Expression_rpow :: "pyval \<Rightarrow> pyval \<Rightarrow> 'a store_scheme \<Rightarrow> error + pyval \<times> 'a store_scheme" where
  "Expression_rpow self other = Expression_init PowK [other, self]"


section \<open>The postorder visitor\<close>

text \<open>Sequencing of calls that may raise and that may extend the store.\<close>

definition then_do ::
  "(error + 'a \<times> 's) \<Rightarrow> ('a \<Rightarrow> 's \<Rightarrow> error + 'b \<times> 's) \<Rightarrow> error + 'b \<times> 's" where
  "then_do m f = (case m of Inl e \<Rightarrow> Inl e | Inr (x, s) \<Rightarrow> f x s)"

definition pure_do :: "(error + 'a) \<Rightarrow> 's \<Rightarrow> error + 'a \<times> 's" where
  "pure_do m s = (case m of Inl e \<Rightarrow> Inl e | Inr x \<Rightarrow> Inr (x, s))"

text \<open>\<^verbatim>\<open>xs[i]\<close> for \<open>i \<ge> 0\<close>: IndexError out of range.\<close>

definition index :: "'a list \<Rightarrow> nat \<Rightarrow> error + 'a" where
  "index xs i = (if i < length xs then Inr (xs ! i) else Inl IndexError)"

text \<open>
  The object behind a value, for an attribute access such as \<^verbatim>\<open>current.operands\<close>: a
  primitive has no such attribute.
\<close>

definition get_node :: "'a store_scheme \<Rightarrow> pyval \<Rightarrow> error + node" where
  "get_node w x =
     (case x of
        PRef r \<Rightarrow> (if r < length (nodes w) then Inr (nodes w ! r) else Inl IllFormedStore)
      | _ \<Rightarrow> Inl AttributeError)"

definition get_operands :: "'a store_scheme \<Rightarrow> pyval \<Rightarrow> error + pyval list" where
  "get_operands w x = (case get_node w x of Inl e \<Rightarrow> Inl e | Inr n \<Rightarrow> Inr (operands n))"

text \<open>
  \<^verbatim>\<open>[visited[child] for child in current.operands]\<close>: KeyError at the first child that is
  not a key.
\<close>

fun lookup_all :: "(pyval \<rightharpoonup> 'r) \<Rightarrow> pyval list \<Rightarrow> error + 'r list" where
  "lookup_all m [] = Inr []"
| "lookup_all m (x # xs) =
     (case m x of
        None \<Rightarrow> Inl KeyError
      | Some v \<Rightarrow> (case lookup_all m xs of Inl e \<Rightarrow> Inl e | Inr vs \<Rightarrow> Inr (v # vs)))"

text \<open>
  One invocation of the caller's function, as the traversal made it: the node, the
  positional results of its operands, the keyword arguments, and what it returned. The
  list of them is not in the source; it records the calls so that they can be counted and
  ordered.
\<close>

record 'r call =
  c_node :: pyval
  c_args :: "'r list"
  c_kwargs :: kwargs
  c_result :: 'r

text \<open>
  The variables of \<^verbatim>\<open>postvisitor\<close>. \<open>stack\<close> is the Python list: \<^verbatim>\<open>pop()\<close> takes its
  last element. \<open>visited\<close> is the dict; its keys are objects, compared by identity, since
  no class of the program defines \<^verbatim>\<open>__eq__\<close> or \<^verbatim>\<open>__hash__\<close>.
\<close>

record ('r, 'w) pv_state =
  stack :: "pyval list"
  visited :: "pyval \<rightharpoonup> 'r"
  world :: 'w
  calls :: "'r call list"

text \<open>
  The caller's function: \<^verbatim>\<open>fn(node, *o, **kwargs)\<close>. It may raise, and it may build new
  nodes.
\<close>

type_synonym ('r, 'a) visitor =
  "'a store_scheme \<Rightarrow> pyval \<Rightarrow> 'r list \<Rightarrow> kwargs \<Rightarrow> error + 'r \<times> 'a store_scheme"

text \<open>
  The body of the loop, entered with a non-empty stack:
  \<^verbatim>\<open>
  current = stack.pop()
  unvisited = []
  for child in current.operands:
      if child not in visited:
          unvisited.append(child)
  if unvisited:
      stack.append(current)
      stack.extend(unvisited)
  else:
      visited[current] = fn(current, *[visited[child]
                                       for child in current.operands],
                            **kwargs)
  \<close>
\<close>

definition postvisitor_step ::
  "('r, 'a) visitor \<Rightarrow> kwargs \<Rightarrow> ('r, 'a store_scheme) pv_state
     \<Rightarrow> error + ('r, 'a store_scheme) pv_state" where
  "postvisitor_step fn kw st =
     (let current = last (stack st); stack1 = butlast (stack st) in
      case get_operands (world st) current of
        Inl e \<Rightarrow> Inl e
      | Inr ops \<Rightarrow>
          (let unvisited = filter (\<lambda>child. visited st child = None) ops in
           if unvisited \<noteq> [] then Inr (st\<lparr>stack := stack1 @ [current] @ unvisited\<rparr>)
           else
             (case lookup_all (visited st) ops of
                Inl e \<Rightarrow> Inl e
              | Inr args \<Rightarrow>
                  (case fn (world st) current args kw of
                     Inl e \<Rightarrow> Inl e
                   | Inr (v, w') \<Rightarrow>
                       Inr (st\<lparr>stack := stack1,
                               visited := (visited st)(current \<mapsto> v),
                               world := w',
                               calls := calls st @
                                 [\<lparr>c_node = current, c_args = args,
                                   c_kwargs = kw, c_result = v\<rparr>]\<rparr>)))))"

text \<open>\<^verbatim>\<open>while stack:\<close> The loop may run forever; then the result is \<open>None\<close>.\<close>

partial_function (option) postvisitor_loop ::
  "('r, 'a) visitor \<Rightarrow> kwargs \<Rightarrow> ('r, 'a store_scheme) pv_state
     \<Rightarrow> (error + ('r, 'a store_scheme) pv_state) option" where
  "postvisitor_loop fn kw st =
     (if stack st = [] then Some (Inr st)
      else
        (case postvisitor_step fn kw st of
           Inl e \<Rightarrow> Some (Inl e)
         | Inr st' \<Rightarrow> postvisitor_loop fn kw st'))"

text \<open>
  \<^verbatim>\<open>postvisitor(expr, fn, **kwargs)\<close>, run in store \<open>w\<close>. A normal return gives
  \<^verbatim>\<open>visited[expr]\<close>, with the store and the calls made.
\<close>

definition postvisitor ::
  "'a store_scheme \<Rightarrow> ('r, 'a) visitor \<Rightarrow> pyval \<Rightarrow> kwargs
     \<Rightarrow> (error + 'r \<times> 'a store_scheme \<times> 'r call list) option" where
  "postvisitor w fn expr kw =
     (case postvisitor_loop fn kw
             \<lparr>stack = [expr], visited = Map.empty, world = w, calls = []\<rparr> of
        None \<Rightarrow> None
      | Some (Inl e) \<Rightarrow> Some (Inl e)
      | Some (Inr st) \<Rightarrow>
          (case visited st expr of
             None \<Rightarrow> Some (Inl KeyError)
           | Some v \<Rightarrow> Some (Inr (v, world st, calls st))))"

section \<open>Differentiation\<close>

text \<open>\<^verbatim>\<open>type(expr)\<close>\<close>

definition class_of :: "'a store_scheme \<Rightarrow> pyval \<Rightarrow> error + kind" where
  "class_of w x =
     (case x of
        PRef r \<Rightarrow> (if r < length (nodes w) then Inr (kind (nodes w ! r)) else Inl IllFormedStore)
      | PInt _ \<Rightarrow> Inr (OtherK ''int'')
      | PBool _ \<Rightarrow> Inr (OtherK ''bool'')
      | PFloat _ \<Rightarrow> Inr (OtherK ''float'')
      | PComplex _ _ \<Rightarrow> Inr (OtherK ''complex'')
      | PStr _ \<Rightarrow> Inr (OtherK ''str'')
      | PNone \<Rightarrow> Inr (OtherK ''NoneType''))"

text \<open>\<^verbatim>\<open>type(expr).__name__\<close>\<close>

fun type_name :: "kind \<Rightarrow> string" where
  "type_name NumberK = ''Number''"
| "type_name SymbolK = ''Symbol''"
| "type_name AddK = ''Add''"
| "type_name SubK = ''Sub''"
| "type_name MulK = ''Mul''"
| "type_name DivK = ''Div''"
| "type_name PowK = ''Pow''"
| "type_name (DerivedK name k) = name"
| "type_name (OtherK name) = name"

text \<open>
  The implementations of \<^verbatim>\<open>differentiate\<close>: the seven registered ones and the default.
  \<^verbatim>\<open>singledispatch\<close> selects by the class of the first argument: the implementation
  registered for the class itself or, failing that, for the nearest of its ancestors; the
  default when there is none.
\<close>

datatype diff_rule =
    NumberRule | SymbolRule | AddRule | SubRule | MulRule | DivRule | PowRule | DefaultRule

fun dispatch :: "kind \<Rightarrow> diff_rule" where
  "dispatch NumberK = NumberRule"
| "dispatch SymbolK = SymbolRule"
| "dispatch AddK = AddRule"
| "dispatch SubK = SubRule"
| "dispatch MulK = MulRule"
| "dispatch DivK = DivRule"
| "dispatch PowK = PowRule"
| "dispatch (DerivedK name k) = dispatch k"
| "dispatch (OtherK name) = DefaultRule"

text \<open>\<^verbatim>\<open>expr.operands[i]\<close>\<close>

definition operand :: "'a store_scheme \<Rightarrow> pyval \<Rightarrow> nat \<Rightarrow> error + pyval" where
  "operand w expr i =
     (case get_operands w expr of Inl e \<Rightarrow> Inl e | Inr ops \<Rightarrow> index ops i)"

text \<open>
  \<^verbatim>\<open>expr.value == var\<close> in the Symbol rule. The value of a Symbol is text, and text is
  equal to another value only if that is the same text.
\<close>

definition symbol_is :: "'a store_scheme \<Rightarrow> pyval \<Rightarrow> pyval \<Rightarrow> error + bool" where
  "symbol_is w expr var =
     (case get_node w expr of
        Inl e \<Rightarrow> Inl e
      | Inr n \<Rightarrow>
          (case payload n of
             Some (PStr s) \<Rightarrow> Inr (var = PStr s)
           | _ \<Rightarrow> Inl IllFormedStore))"

text \<open>
  The seven registered rules and the default, in the order of the source. Arguments are
  evaluated left to right, so the nodes are built innermost first, left before right.
  \<^verbatim>\<open>
  @singledispatch
  def differentiate(expr, *c, **kwargs):
      raise NotImplementedError(
          f"Cannot differentiate a {type(expr).__name__}")
  Number: return Number(0)
  Symbol: (expr, *c, var, **kwargs)
          if expr.value == var: return Number(1)
          return Number(0)
  Add:    return Add(c[0], c[1])
  Sub:    return Sub(c[0], c[1])
  Mul:    return Add(Mul(c[0], expr.operands[1]),
                     Mul(c[1], expr.operands[0]))
  Div:    return Div(Sub(Mul(c[0], expr.operands[1]),
                         Mul(c[1], expr.operands[0])),
                     Pow(expr.operands[1], Number(2)))
  Pow:    return Mul(expr.operands[1], Pow(expr.operands[0], Sub(expr.operands[1],
                                                                 Number(1))))
  \<close>
  The Symbol rule has the keyword-only parameter \<^verbatim>\<open>var\<close>: a call without it is a
  TypeError.
\<close>

definition diff_Number :: "(pyval, 'a) visitor" where
  "diff_Number w expr c kw = Number_init (PInt 0) w"

definition diff_Symbol :: "(pyval, 'a) visitor" where
  "diff_Symbol w expr c kw =
     (case kw ''var'' of
        None \<Rightarrow> Inl TypeError
      | Some var \<Rightarrow>
          (case symbol_is w expr var of
             Inl e \<Rightarrow> Inl e
           | Inr b \<Rightarrow> (if b then Number_init (PInt 1) w else Number_init (PInt 0) w)))"

definition diff_Add :: "(pyval, 'a) visitor" where
  "diff_Add w expr c kw =
     then_do (pure_do (index c 0) w) (\<lambda>c0 w.
     then_do (pure_do (index c 1) w) (\<lambda>c1 w.
     Expression_init AddK [c0, c1] w))"

definition diff_Sub :: "(pyval, 'a) visitor" where
  "diff_Sub w expr c kw =
     then_do (pure_do (index c 0) w) (\<lambda>c0 w.
     then_do (pure_do (index c 1) w) (\<lambda>c1 w.
     Expression_init SubK [c0, c1] w))"

definition diff_Mul :: "(pyval, 'a) visitor" where
  "diff_Mul w expr c kw =
     then_do (pure_do (index c 0) w) (\<lambda>c0 w.
     then_do (pure_do (operand w expr 1) w) (\<lambda>b w.
     then_do (Expression_init MulK [c0, b] w) (\<lambda>m1 w.
     then_do (pure_do (index c 1) w) (\<lambda>c1 w.
     then_do (pure_do (operand w expr 0) w) (\<lambda>a w.
     then_do (Expression_init MulK [c1, a] w) (\<lambda>m2 w.
     Expression_init AddK [m1, m2] w))))))"

definition diff_Div :: "(pyval, 'a) visitor" where
  "diff_Div w expr c kw =
     then_do (pure_do (index c 0) w) (\<lambda>c0 w.
     then_do (pure_do (operand w expr 1) w) (\<lambda>b w.
     then_do (Expression_init MulK [c0, b] w) (\<lambda>m1 w.
     then_do (pure_do (index c 1) w) (\<lambda>c1 w.
     then_do (pure_do (operand w expr 0) w) (\<lambda>a w.
     then_do (Expression_init MulK [c1, a] w) (\<lambda>m2 w.
     then_do (Expression_init SubK [m1, m2] w) (\<lambda>s w.
     then_do (pure_do (operand w expr 1) w) (\<lambda>b' w.
     then_do (Number_init (PInt 2) w) (\<lambda>two w.
     then_do (Expression_init PowK [b', two] w) (\<lambda>p w.
     Expression_init DivK [s, p] w))))))))))"

definition diff_Pow :: "(pyval, 'a) visitor" where
  "diff_Pow w expr c kw =
     then_do (pure_do (operand w expr 1) w) (\<lambda>b w.
     then_do (pure_do (operand w expr 0) w) (\<lambda>a w.
     then_do (pure_do (operand w expr 1) w) (\<lambda>b' w.
     then_do (Number_init (PInt 1) w) (\<lambda>one w.
     then_do (Expression_init SubK [b', one] w) (\<lambda>s w.
     then_do (Expression_init PowK [a, s] w) (\<lambda>p w.
     Expression_init MulK [b, p] w))))))"

definition differentiate :: "(pyval, 'a) visitor" where
  "differentiate w expr c kw =
     (case class_of w expr of
        Inl e \<Rightarrow> Inl e
      | Inr k \<Rightarrow>
          (case dispatch k of
             NumberRule \<Rightarrow> diff_Number w expr c kw
           | SymbolRule \<Rightarrow> diff_Symbol w expr c kw
           | AddRule \<Rightarrow> diff_Add w expr c kw
           | SubRule \<Rightarrow> diff_Sub w expr c kw
           | MulRule \<Rightarrow> diff_Mul w expr c kw
           | DivRule \<Rightarrow> diff_Div w expr c kw
           | PowRule \<Rightarrow> diff_Pow w expr c kw
           | DefaultRule \<Rightarrow>
               Inl (NotImplementedError (''Cannot differentiate a '' @ type_name k))))"

section \<open>Stores, traversals and the vocabulary of the properties\<close>

subsection \<open>Node literals\<close>

abbreviation number_node :: "pyval \<Rightarrow> node" where
  "number_node v \<equiv> \<lparr>kind = NumberK, payload = Some v, operands = []\<rparr>"

abbreviation symbol_node :: "string \<Rightarrow> node" where
  "symbol_node s \<equiv> \<lparr>kind = SymbolK, payload = Some (PStr s), operands = []\<rparr>"

abbreviation operator_node :: "kind \<Rightarrow> pyval list \<Rightarrow> node" where
  "operator_node k ops \<equiv> \<lparr>kind = k, payload = None, operands = ops\<rparr>"

subsection \<open>Well-formed stores\<close>

text \<open>
  Objects are built bottom-up and never changed afterwards: the operands of a node exist
  before the node does. In the store this reads: every operand of the node at position
  \<open>i\<close> is a reference to a position below \<open>i\<close>. Such a store is a finite acyclic
  expression graph, and every finite acyclic graph of expressions can be laid out so.
\<close>

definition refs_below :: "nat \<Rightarrow> pyval list \<Rightarrow> bool" where
  "refs_below i ops = list_all (\<lambda>c. case c of PRef j \<Rightarrow> j < i | _ \<Rightarrow> False) ops"

definition heap_ok :: "node list \<Rightarrow> bool" where
  "heap_ok h = list_all (\<lambda>(i, n). refs_below i (operands n)) (enumerate 0 h)"

text \<open>
  Nodes are immutable: a caller's function may add nodes to the store, and leaves the
  existing ones as they are.
\<close>

definition fn_preserves :: "('r, 'a) visitor \<Rightarrow> bool" where
  "fn_preserves fn =
     (\<forall>w n cs kw v w'. fn w n cs kw = Inr (v, w') \<longrightarrow> prefix (nodes w) (nodes w'))"

text \<open>
  A caller's function without effects, given by the value it returns.
\<close>

definition pure_visitor :: "(pyval \<Rightarrow> 'r list \<Rightarrow> kwargs \<Rightarrow> 'r) \<Rightarrow> ('r, 'a) visitor" where
  "pure_visitor f w n cs kw = Inr (f n cs kw, w)"

text \<open>
  The invariant of the data model: a Number or a Symbol has no operands, an operator has
  two. Nothing is said of other classes.
\<close>

fun is_operator :: "kind \<Rightarrow> bool" where
  "is_operator AddK = True"
| "is_operator SubK = True"
| "is_operator MulK = True"
| "is_operator DivK = True"
| "is_operator PowK = True"
| "is_operator _ = False"

definition arity_ok :: "node \<Rightarrow> bool" where
  "arity_ok n =
     (case kind n of
        NumberK \<Rightarrow> operands n = []
      | SymbolK \<Rightarrow> operands n = []
      | OtherK _ \<Rightarrow> True
      | DerivedK _ _ \<Rightarrow> True
      | _ \<Rightarrow> length (operands n) = 2)"

text \<open>
  A node that its differentiation rule accepts: under an operator rule a node with two
  operands, under the Symbol rule a node whose value is text, under the Number rule any
  node; under the default rule none.
\<close>

definition differentiable :: "node \<Rightarrow> bool" where
  "differentiable n =
     (case dispatch (kind n) of
        NumberRule \<Rightarrow> True
      | SymbolRule \<Rightarrow> (case payload n of Some (PStr s) \<Rightarrow> True | _ \<Rightarrow> False)
      | DefaultRule \<Rightarrow> False
      | _ \<Rightarrow> length (operands n) = 2)"

text \<open>
  \<open>reaches h r k\<close>: the node at \<open>k\<close> is the node at \<open>r\<close> or one of its descendants.
\<close>

inductive reaches :: "node list \<Rightarrow> nat \<Rightarrow> nat \<Rightarrow> bool" for h :: "node list" and r :: nat where
  reaches_self: "reaches h r r"
| reaches_operand: "reaches h r k \<Longrightarrow> k < length h \<Longrightarrow> PRef k' \<in> set (operands (h ! k)) \<Longrightarrow> reaches h r k'"

subsection \<open>The calls of a traversal\<close>

text \<open>
  The dict \<open>visited\<close> as a function of the calls made so far: the latest result for
  each node.
\<close>

definition memo_of :: "'r call list \<Rightarrow> (pyval \<rightharpoonup> 'r)" where
  "memo_of L = fold (\<lambda>c m. m(c_node c \<mapsto> c_result c)) L Map.empty"

text \<open>
  A call is in order when it is on a node of the store, with the keyword arguments of the
  traversal, and its positional arguments are the memoised results of the operands of
  that node at the time of the call.
\<close>

definition call_ok ::
  "node list \<Rightarrow> ('r, 'a) visitor \<Rightarrow> kwargs \<Rightarrow> 'r call list \<Rightarrow> 'r call \<Rightarrow> bool" where
  "call_ok h fn kw before c =
     ((\<exists>k. c_node c = PRef k \<and> k < length h \<and>
           lookup_all (memo_of before) (operands (h ! k)) = Inr (c_args c)) \<and>
      c_kwargs c = kw \<and>
      (\<exists>w w'. prefix h (nodes w) \<and> fn w (c_node c) (c_args c) kw = Inr (c_result c, w')))"

definition calls_ok ::
  "node list \<Rightarrow> ('r, 'a) visitor \<Rightarrow> kwargs \<Rightarrow> 'r call list \<Rightarrow> bool" where
  "calls_ok h fn kw L = (\<forall>i<length L. call_ok h fn kw (take i L) (L ! i))"

text \<open>
  The loop invariant, and what it means for the loop to deal with the entry on top of the
  stack: either the caller's function raises on some node at or below it, or the loop
  reaches the state where the entry is gone and the node has been visited.
\<close>

definition pv_inv ::
  "node list \<Rightarrow> ('r, 'a) visitor \<Rightarrow> kwargs \<Rightarrow> ('r, 'a store_scheme) pv_state \<Rightarrow> bool" where
  "pv_inv h fn kw st =
     (prefix h (nodes (world st)) \<and> visited st = memo_of (calls st) \<and>
      calls_ok h fn kw (calls st) \<and> (\<forall>x\<in>set (stack st). \<exists>k<length h. x = PRef k))"

definition raised_by ::
  "node list \<Rightarrow> ('r, 'a) visitor \<Rightarrow> kwargs \<Rightarrow> nat \<Rightarrow> error \<Rightarrow> bool" where
  "raised_by h fn kw r e =
     (\<exists>w k cs. k \<le> r \<and> k < length h \<and> prefix h (nodes w) \<and>
         length cs = length (operands (h ! k)) \<and> fn w (PRef k) cs kw = Inl e)"

definition processed ::
  "node list \<Rightarrow> ('r, 'a) visitor \<Rightarrow> kwargs \<Rightarrow> nat \<Rightarrow>
   ('r, 'a store_scheme) pv_state \<Rightarrow> ('r, 'a store_scheme) pv_state \<Rightarrow> bool" where
  "processed h fn kw r st st' =
     (postvisitor_loop fn kw st = postvisitor_loop fn kw st' \<and> pv_inv h fn kw st' \<and>
      (\<forall>x. visited st x \<noteq> None \<longrightarrow> visited st' x \<noteq> None) \<and>
      calls st' \<noteq> [] \<and> c_node (last (calls st')) = PRef r \<and>
      (\<exists>w1 args. prefix h (nodes w1) \<and>
          fn w1 (PRef r) args kw = Inr (c_result (last (calls st')), world st')))"

definition processes ::
  "node list \<Rightarrow> ('r, 'a) visitor \<Rightarrow> kwargs \<Rightarrow> nat \<Rightarrow> bool" where
  "processes h fn kw r =
     (\<forall>st rest. pv_inv h fn kw st \<and> stack st = rest @ [PRef r] \<longrightarrow>
        (\<exists>e. postvisitor_loop fn kw st = Some (Inl e) \<and> raised_by h fn kw r e) \<or>
        (\<exists>st'. stack st' = rest \<and> processed h fn kw r st st'))"

subsection \<open>Calls that build nodes\<close>

definition succeeds :: "node list \<Rightarrow> (error + 'x \<times> 'a store_scheme) \<Rightarrow> bool" where
  "succeeds h m = (\<exists>v w'. m = Inr (v, w') \<and> prefix h (nodes w'))"

definition extends :: "'a store_scheme \<Rightarrow> (error + 'x \<times> 'a store_scheme) \<Rightarrow> bool" where
  "extends w m = (\<forall>v w'. m = Inr (v, w') \<longrightarrow> prefix (nodes w) (nodes w'))"

definition yields_ref :: "(error + pyval \<times> 'a store_scheme) \<Rightarrow> bool" where
  "yields_ref m = (\<forall>v w'. m = Inr (v, w') \<longrightarrow> (\<exists>r<length (nodes w'). v = PRef r))"


subsection \<open>Composition\<close>

text \<open>
  \<open>boxed w w' v x\<close>: \<open>x\<close> is the operand stored for the argument \<open>v\<close>. A number is
  stored as a reference to a new Number node that holds it; anything else is stored as it
  is, an expression by reference, so that its identity is kept.
\<close>

definition boxed :: "'a store_scheme \<Rightarrow> 'a store_scheme \<Rightarrow> pyval \<Rightarrow> pyval \<Rightarrow> bool" where
  "boxed w w' v x =
     (if is_Num v
      then (\<exists>r. x = PRef r \<and> length (nodes w) \<le> r \<and> r < length (nodes w') \<and>
                nodes w' ! r = number_node v)
      else x = v)"

text \<open>
  \<open>composes k e1 e2 w res\<close>: the call returned a new node of class \<open>k\<close> whose
  operands are \<open>e1\<close> and \<open>e2\<close>, boxed, in this order, in a store that extends \<open>w\<close>.
\<close>

definition composes ::
  "kind \<Rightarrow> pyval \<Rightarrow> pyval \<Rightarrow> 'a store_scheme \<Rightarrow> (error + pyval \<times> 'a store_scheme) \<Rightarrow> bool" where
  "composes k e1 e2 w res =
     (\<exists>r w' x1 x2. res = Inr (PRef r, w') \<and> prefix (nodes w) (nodes w') \<and>
        length (nodes w) \<le> r \<and> r < length (nodes w') \<and>
        kind (nodes w' ! r) = k \<and> operands (nodes w' ! r) = [x1, x2] \<and>
        boxed w w' e1 x1 \<and> boxed w w' e2 x2)"

text \<open>
  The values the composition operators are applied to: a number, or an expression of the
  store.
\<close>

definition expr_or_num :: "'a store_scheme \<Rightarrow> pyval \<Rightarrow> bool" where
  "expr_or_num w a = (is_Num a \<or> (\<exists>r<length (nodes w). a = PRef r))"

text \<open>
  The stores that the construction interface builds from nothing: the constructors of
  Number and Symbol, the ten arithmetic methods, and the constructor of an operator
  called with two operands.
\<close>

inductive constructed :: "'a store_scheme \<Rightarrow> bool" where
  c_empty: "nodes w = [] \<Longrightarrow> constructed w"
| c_Number: "constructed w \<Longrightarrow> Number_init v w = Inr (x, w') \<Longrightarrow> constructed w'"
| c_Symbol: "constructed w \<Longrightarrow> Symbol_init v w = Inr (x, w') \<Longrightarrow> constructed w'"
| c_operator: "constructed w \<Longrightarrow> is_operator k \<Longrightarrow>
     Expression_init k [a, b] w = Inr (x, w') \<Longrightarrow> constructed w'"
| c_add: "constructed w \<Longrightarrow> Expression_add a b w = Inr (x, w') \<Longrightarrow> constructed w'"
| c_sub: "constructed w \<Longrightarrow> Expression_sub a b w = Inr (x, w') \<Longrightarrow> constructed w'"
| c_mul: "constructed w \<Longrightarrow> Expression_mul a b w = Inr (x, w') \<Longrightarrow> constructed w'"
| c_truediv: "constructed w \<Longrightarrow> Expression_truediv a b w = Inr (x, w') \<Longrightarrow> constructed w'"
| c_pow: "constructed w \<Longrightarrow> Expression_pow a b w = Inr (x, w') \<Longrightarrow> constructed w'"
| c_radd: "constructed w \<Longrightarrow> Expression_radd a b w = Inr (x, w') \<Longrightarrow> constructed w'"
| c_rsub: "constructed w \<Longrightarrow> Expression_rsub a b w = Inr (x, w') \<Longrightarrow> constructed w'"
| c_rmul: "constructed w \<Longrightarrow> Expression_rmul a b w = Inr (x, w') \<Longrightarrow> constructed w'"
| c_rtruediv: "constructed w \<Longrightarrow> Expression_rtruediv a b w = Inr (x, w') \<Longrightarrow> constructed w'"
| c_rpow: "constructed w \<Longrightarrow> Expression_rpow a b w = Inr (x, w') \<Longrightarrow> constructed w'"

subsection \<open>Example stores\<close>

text \<open>
  \<^verbatim>\<open>x = Symbol("x")\<close>
\<close>

definition x_store :: store where
  "x_store = \<lparr>nodes = [symbol_node ''x'']\<rparr>"

text \<open>
  \<^verbatim>\<open>x = Symbol("x"); a = Symbol("a"); x + x * a\<close>: the node \<^verbatim>\<open>x\<close> at position 0 is an
  operand of the product at position 2 and of the sum at position 3.
\<close>

definition shared_store :: store where
  "shared_store =
     \<lparr>nodes = [symbol_node ''x'', symbol_node ''a'',
               operator_node MulK [PRef 0, PRef 1],
               operator_node AddK [PRef 0, PRef 2]]\<rparr>"


text \<open>
  \<^verbatim>\<open>x * a\<close> with the derivatives of \<^verbatim>\<open>x\<close> and \<^verbatim>\<open>a\<close> at positions 3 and 4.
\<close>

definition product_store :: store where
  "product_store =
     \<lparr>nodes = [symbol_node ''x'', symbol_node ''a'',
               operator_node MulK [PRef 0, PRef 1],
               number_node (PInt 1), number_node (PInt 0)]\<rparr>"


text \<open>
  \<^verbatim>\<open>x = Symbol("x"); d = 5 - x; Mul(x, d)\<close>
\<close>

definition difference_store :: store where
  "difference_store =
     \<lparr>nodes = [symbol_node ''x'', number_node (PInt 5),
               operator_node SubK [PRef 1, PRef 0],
               operator_node MulK [PRef 0, PRef 2]]\<rparr>"

text \<open>
  A caller's function that counts the nodes of a tree.
\<close>

definition count_nodes :: "(nat, unit) visitor" where
  "count_nodes = pure_visitor (\<lambda>n cs kw. Suc (sum_list cs))"

declare postvisitor_loop.simps [code]

section \<open>The traversal, one stack entry at a time\<close>

lemma prefix_nth: "prefix xs ys \<Longrightarrow> i < length xs \<Longrightarrow> ys ! i = xs ! i"
  by (auto simp: prefix_def nth_append)

lemma heap_ok_nth:
  assumes "heap_ok h" "i < length h" "c \<in> set (operands (h ! i))"
  shows "\<exists>j<i. c = PRef j"
proof -
  from assms(1,2) have "refs_below i (operands (h ! i))"
    by (auto simp: heap_ok_def list_all_length nth_enumerate_eq)
  with assms(3) have "case c of PRef j \<Rightarrow> j < i | _ \<Rightarrow> False"
    by (simp add: refs_below_def list_all_iff)
  then show ?thesis by (cases c) simp_all
qed

lemma memo_of_snoc: "memo_of (L @ [c]) = (memo_of L)(c_node c \<mapsto> c_result c)"
  by (simp add: memo_of_def)

lemma memo_of_last: "L \<noteq> [] \<Longrightarrow> memo_of L (c_node (last L)) = Some (c_result (last L))"
  by (cases L rule: rev_cases) (simp_all add: memo_of_snoc)

lemma calls_ok_snoc:
  "calls_ok h fn kw (L @ [c]) \<longleftrightarrow> calls_ok h fn kw L \<and> call_ok h fn kw L c"
  by (auto simp: calls_ok_def less_Suc_eq nth_append)

lemma lookup_all_total:
  "\<forall>c\<in>set ops. m c \<noteq> None \<Longrightarrow> \<exists>args. lookup_all m ops = Inr args \<and> length args = length ops"
  by (induction ops) auto

lemma loop_continue:
  "stack st \<noteq> [] \<Longrightarrow> postvisitor_step fn kw st = Inr st' \<Longrightarrow>
   postvisitor_loop fn kw st = postvisitor_loop fn kw st'"
  by (subst postvisitor_loop.simps) simp

lemma loop_raise:
  "stack st \<noteq> [] \<Longrightarrow> postvisitor_step fn kw st = Inl e \<Longrightarrow>
   postvisitor_loop fn kw st = Some (Inl e)"
  by (subst postvisitor_loop.simps) simp

lemma loop_done: "stack st = [] \<Longrightarrow> postvisitor_loop fn kw st = Some (Inr st)"
  by (subst postvisitor_loop.simps) simp

lemma get_operands_inv:
  "prefix h (nodes w) \<Longrightarrow> r < length h \<Longrightarrow> get_operands w (PRef r) = Inr (operands (h ! r))"
  by (auto simp: get_operands_def get_node_def prefix_nth dest: prefix_length_le)

text \<open>
  The node on top of the stack has all its operands visited: the function is called on it.
\<close>

lemma visit_case:
  assumes inv: "pv_inv h fn kw st" and stk: "stack st = rest @ [PRef r]"
    and r: "r < length h" and pres: "fn_preserves fn"
    and vis: "\<forall>c\<in>set (operands (h ! r)). visited st c \<noteq> None"
  shows "(\<exists>e. postvisitor_loop fn kw st = Some (Inl e) \<and> raised_by h fn kw r e) \<or>
         (\<exists>st'. stack st' = rest \<and> processed h fn kw r st st')"
proof -
  let ?ops = "operands (h ! r)"
  from inv have pre: "prefix h (nodes (world st))" by (simp add: pv_inv_def)
  have ops: "get_operands (world st) (PRef r) = Inr ?ops"
    using pre r by (rule get_operands_inv)
  from vis have unv: "filter (\<lambda>child. visited st child = None) ?ops = []"
    by (auto simp: filter_empty_conv)
  from lookup_all_total[OF vis] obtain args where
    args: "lookup_all (visited st) ?ops = Inr args" and len: "length args = length ?ops"
    by blast
  have ne: "stack st \<noteq> []" using stk by simp
  show ?thesis
  proof (cases "fn (world st) (PRef r) args kw")
    case (Inl e)
    then have "postvisitor_step fn kw st = Inl e"
      by (simp add: postvisitor_step_def Let_def stk ops unv args)
    then have "postvisitor_loop fn kw st = Some (Inl e)" by (rule loop_raise[OF ne])
    moreover have "raised_by h fn kw r e"
      unfolding raised_by_def using pre r len Inl by blast
    ultimately show ?thesis by blast
  next
    case (Inr p)
    obtain v w' where p: "p = (v, w')" by (cases p)
    let ?c = "\<lparr>c_node = PRef r, c_args = args, c_kwargs = kw, c_result = v\<rparr>"
    let ?st' = "st\<lparr>stack := rest, visited := (visited st)(PRef r \<mapsto> v), world := w',
                   calls := calls st @ [?c]\<rparr>"
    have step: "postvisitor_step fn kw st = Inr ?st'"
      using Inr p by (simp add: postvisitor_step_def Let_def stk ops unv args)
    have eq: "postvisitor_loop fn kw st = postvisitor_loop fn kw ?st'"
      using ne step by (rule loop_continue)
    from pres Inr p have "prefix (nodes (world st)) (nodes w')"
      unfolding fn_preserves_def by blast
    with pre have pre': "prefix h (nodes w')" by (rule prefix_order.trans)
    from inv have memo: "visited st = memo_of (calls st)" by (simp add: pv_inv_def)
    have "call_ok h fn kw (calls st) ?c"
      unfolding call_ok_def using r args memo pre Inr p by auto
    with inv have cok: "calls_ok h fn kw (calls st @ [?c])"
      by (simp add: calls_ok_snoc pv_inv_def)
    have inv': "pv_inv h fn kw ?st'"
      using inv pre' cok memo stk by (auto simp: pv_inv_def memo_of_snoc)
    have "processed h fn kw r st ?st'"
      unfolding processed_def using eq inv' pre Inr p by auto
    then show ?thesis by (intro disjI2 exI[of _ ?st']) simp
  qed
qed

text \<open>
  The node on top of the stack has operands that are not visited: they are pushed over it.
\<close>

lemma push_case:
  assumes inv: "pv_inv h fn kw st" and stk: "stack st = rest @ [PRef r]"
    and r: "r < length h" and ok: "heap_ok h"
    and us: "us = filter (\<lambda>child. visited st child = None) (operands (h ! r))"
    and ne: "us \<noteq> []"
  shows "postvisitor_loop fn kw st = postvisitor_loop fn kw (st\<lparr>stack := (rest @ [PRef r]) @ us\<rparr>)"
    and "pv_inv h fn kw (st\<lparr>stack := (rest @ [PRef r]) @ us\<rparr>)"
proof -
  from inv have pre: "prefix h (nodes (world st))" by (simp add: pv_inv_def)
  have ops: "get_operands (world st) (PRef r) = Inr (operands (h ! r))"
    using pre r by (rule get_operands_inv)
  have "postvisitor_step fn kw st = Inr (st\<lparr>stack := (rest @ [PRef r]) @ us\<rparr>)"
    using ne by (simp add: postvisitor_step_def Let_def stk ops us[symmetric])
  moreover have "stack st \<noteq> []" using stk by simp
  ultimately show "postvisitor_loop fn kw st =
      postvisitor_loop fn kw (st\<lparr>stack := (rest @ [PRef r]) @ us\<rparr>)"
    by (rule loop_continue[rotated])
  have "\<exists>k<length h. x = PRef k" if "x \<in> set us" for x
  proof -
    from that have "x \<in> set (operands (h ! r))" by (simp add: us)
    from heap_ok_nth[OF ok r this] r show ?thesis by auto
  qed
  with inv stk show "pv_inv h fn kw (st\<lparr>stack := (rest @ [PRef r]) @ us\<rparr>)"
    by (auto simp: pv_inv_def)
qed

lemma raised_by_mono: "raised_by h fn kw k e \<Longrightarrow> k \<le> r \<Longrightarrow> raised_by h fn kw r e"
  unfolding raised_by_def by (meson le_trans)

text \<open>
  The entries pushed over a node are dealt with one after the other, from the top.
\<close>

lemma process_list:
  assumes IH: "\<forall>k<r. processes h fn kw k"
  shows "pv_inv h fn kw st \<Longrightarrow> stack st = base @ us \<Longrightarrow> \<forall>x\<in>set us. \<exists>k<r. x = PRef k \<Longrightarrow>
     (\<exists>e. postvisitor_loop fn kw st = Some (Inl e) \<and> raised_by h fn kw r e) \<or>
     (\<exists>st'. postvisitor_loop fn kw st = postvisitor_loop fn kw st' \<and> stack st' = base \<and>
        pv_inv h fn kw st' \<and> (\<forall>x. visited st x \<noteq> None \<longrightarrow> visited st' x \<noteq> None) \<and>
        (\<forall>x\<in>set us. visited st' x \<noteq> None))"
proof (induction us arbitrary: st rule: rev_induct)
  case Nil
  then show ?case by auto
next
  case (snoc y ys)
  from snoc.prems(3) obtain k where k: "k < r" "y = PRef k" by auto
  with IH have "processes h fn kw k" by blast
  moreover have "stack st = (base @ ys) @ [PRef k]" using snoc.prems(2) k by simp
  ultimately consider
    (err) e where "postvisitor_loop fn kw st = Some (Inl e)" "raised_by h fn kw k e"
    | (go) st1 where "stack st1 = base @ ys" "processed h fn kw k st st1"
    unfolding processes_def using snoc.prems(1) by blast
  then show ?case
  proof cases
    case err
    then show ?thesis using raised_by_mono[of h fn kw k e r] k by auto
  next
    case go
    then have eq1: "postvisitor_loop fn kw st = postvisitor_loop fn kw st1"
      and inv1: "pv_inv h fn kw st1"
      and mono1: "\<forall>x. visited st x \<noteq> None \<longrightarrow> visited st1 x \<noteq> None"
      and last1: "calls st1 \<noteq> []" "c_node (last (calls st1)) = PRef k"
      by (auto simp: processed_def)
    from inv1 last1 have y1: "visited st1 y \<noteq> None"
      using memo_of_last[of "calls st1"] k by (auto simp: pv_inv_def)
    from snoc.prems(3) have "\<forall>x\<in>set ys. \<exists>k<r. x = PRef k" by simp
    from snoc.IH[OF inv1 go(1) this] show ?thesis
    proof (elim disjE exE conjE)
      fix e assume "postvisitor_loop fn kw st1 = Some (Inl e)" "raised_by h fn kw r e"
      then show ?thesis using eq1 by auto
    next
      fix st' assume a: "postvisitor_loop fn kw st1 = postvisitor_loop fn kw st'"
        "stack st' = base" "pv_inv h fn kw st'"
        "\<forall>x. visited st1 x \<noteq> None \<longrightarrow> visited st' x \<noteq> None"
        "\<forall>x\<in>set ys. visited st' x \<noteq> None"
      have "postvisitor_loop fn kw st = postvisitor_loop fn kw st'" using eq1 a(1) by simp
      moreover have "\<forall>x. visited st x \<noteq> None \<longrightarrow> visited st' x \<noteq> None"
        using mono1 a(4) by blast
      moreover have "\<forall>x\<in>set (ys @ [y]). visited st' x \<noteq> None"
        using a(4,5) y1 by auto
      ultimately show ?thesis using a(2,3) by blast
    qed
  qed
qed

text \<open>
  By induction on the position of the node: its operands are below it.
\<close>

lemma processes_all:
  assumes ok: "heap_ok h" and pres: "fn_preserves fn"
  shows "processes h fn kw r"
proof (induction r rule: less_induct)
  case (less r)
  show ?case
    unfolding processes_def
  proof (intro allI impI, elim conjE)
    fix st :: "('b, 'a store_scheme) pv_state" and rest :: "pyval list"
    assume inv: "pv_inv h fn kw st" and stk: "stack st = rest @ [PRef r]"
    from inv stk have r: "r < length h" by (auto simp: pv_inv_def)
    let ?us = "filter (\<lambda>child. visited st child = None) (operands (h ! r))"
    show "(\<exists>e. postvisitor_loop fn kw st = Some (Inl e) \<and> raised_by h fn kw r e) \<or>
          (\<exists>st'. stack st' = rest \<and> processed h fn kw r st st')"
    proof (cases "?us = []")
      case True
      then have "\<forall>c\<in>set (operands (h ! r)). visited st c \<noteq> None"
        by (auto simp: filter_empty_conv)
      with inv stk r pres show ?thesis by (rule visit_case)
    next
      case False
      let ?st1 = "st\<lparr>stack := (rest @ [PRef r]) @ ?us\<rparr>"
      have eq1: "postvisitor_loop fn kw st = postvisitor_loop fn kw ?st1"
        and inv1: "pv_inv h fn kw ?st1"
        using push_case[OF inv stk r ok refl False] by blast+
      have below: "\<forall>x\<in>set ?us. \<exists>k<r. x = PRef k"
        using heap_ok_nth[OF ok r] by auto
      have IH: "\<forall>k<r. processes h fn kw k" using less.IH by blast
      have "stack ?st1 = (rest @ [PRef r]) @ ?us" by simp
      from process_list[OF IH inv1 this below] show ?thesis
      proof (elim disjE exE conjE)
        fix e assume "postvisitor_loop fn kw ?st1 = Some (Inl e)" "raised_by h fn kw r e"
        then show ?thesis using eq1 by auto
      next
        fix st2 assume a: "postvisitor_loop fn kw ?st1 = postvisitor_loop fn kw st2"
          "stack st2 = rest @ [PRef r]" "pv_inv h fn kw st2"
          "\<forall>x. visited ?st1 x \<noteq> None \<longrightarrow> visited st2 x \<noteq> None"
          "\<forall>x\<in>set ?us. visited st2 x \<noteq> None"
        have vis2: "\<forall>c\<in>set (operands (h ! r)). visited st2 c \<noteq> None"
        proof
          fix c assume c: "c \<in> set (operands (h ! r))"
          show "visited st2 c \<noteq> None"
          proof (cases "visited st c = None")
            case True
            with c have "c \<in> set ?us" by simp
            with a(5) show ?thesis by blast
          next
            case False
            with a(4) show ?thesis by simp
          qed
        qed
        from visit_case[OF a(3) a(2) r pres vis2] show ?thesis
        proof (elim disjE exE conjE)
          fix e assume "postvisitor_loop fn kw st2 = Some (Inl e)" "raised_by h fn kw r e"
          then show ?thesis using eq1 a(1) by auto
        next
          fix st3 assume b: "stack st3 = rest" "processed h fn kw r st2 st3"
          have "processed h fn kw r st st3"
            using b(2) eq1 a(1,4) unfolding processed_def by auto
          with b(1) show ?thesis by blast
        qed
      qed
    qed
  qed
qed

lemma postvisitor_main:
  assumes ok: "heap_ok (nodes w)" and r: "r < length (nodes w)" and pres: "fn_preserves fn"
  shows "(\<exists>e. postvisitor w fn (PRef r) kw = Some (Inl e) \<and> raised_by (nodes w) fn kw r e) \<or>
         (\<exists>v w' L. postvisitor w fn (PRef r) kw = Some (Inr (v, w', L)) \<and>
             L \<noteq> [] \<and> c_node (last L) = PRef r \<and> c_result (last L) = v \<and>
             calls_ok (nodes w) fn kw L \<and> prefix (nodes w) (nodes w') \<and>
             (\<exists>w1 args. prefix (nodes w) (nodes w1) \<and> fn w1 (PRef r) args kw = Inr (v, w')))"
proof -
  let ?st0 = "\<lparr>stack = [PRef r], visited = Map.empty, world = w, calls = []\<rparr>
                :: ('b, 'a store_scheme) pv_state"
  have inv0: "pv_inv (nodes w) fn kw ?st0"
    using r by (simp add: pv_inv_def memo_of_def calls_ok_def)
  have "processes (nodes w) fn kw r" using ok pres by (rule processes_all)
  moreover have "stack ?st0 = [] @ [PRef r]" by simp
  ultimately consider
    (err) e where "postvisitor_loop fn kw ?st0 = Some (Inl e)" "raised_by (nodes w) fn kw r e"
    | (go) st' where "stack st' = []" "processed (nodes w) fn kw r ?st0 st'"
    unfolding processes_def using inv0 by blast
  then show ?thesis
  proof cases
    case err
    then show ?thesis by (auto simp: postvisitor_def)
  next
    case go
    from go(2) have eq: "postvisitor_loop fn kw ?st0 = postvisitor_loop fn kw st'"
      and inv: "pv_inv (nodes w) fn kw st'"
      and ne: "calls st' \<noteq> []" and lst: "c_node (last (calls st')) = PRef r"
      and fin: "\<exists>w1 args. prefix (nodes w) (nodes w1) \<and>
          fn w1 (PRef r) args kw = Inr (c_result (last (calls st')), world st')"
      by (auto simp: processed_def)
    have loop: "postvisitor_loop fn kw ?st0 = Some (Inr st')"
      using eq loop_done[OF go(1)] by simp
    from inv ne lst have v: "visited st' (PRef r) = Some (c_result (last (calls st')))"
      using memo_of_last[of "calls st'"] by (simp add: pv_inv_def)
    have "postvisitor w fn (PRef r) kw =
        Some (Inr (c_result (last (calls st')), world st', calls st'))"
      by (simp add: postvisitor_def loop v)
    with inv ne lst fin show ?thesis by (auto simp: pv_inv_def)
  qed
qed

lemma lookup_all_nth:
  "lookup_all m ops = Inr args \<Longrightarrow>
   length args = length ops \<and> (\<forall>i<length ops. m (ops ! i) = Some (args ! i))"
proof (induction ops arbitrary: args)
  case Nil
  then show ?case by simp
next
  case (Cons x xs)
  then show ?case
    by (auto split: option.splits sum.splits simp: nth_Cons split: nat.splits)
qed

lemma memo_of_Some:
  "memo_of L x = Some v \<Longrightarrow> \<exists>j<length L. c_node (L ! j) = x \<and> c_result (L ! j) = v"
proof (induction L arbitrary: v rule: rev_induct)
  case Nil
  then show ?case by (simp add: memo_of_def)
next
  case (snoc c L)
  show ?case
  proof (cases "c_node c = x")
    case True
    with snoc.prems have "c_result c = v" by (simp add: memo_of_snoc)
    with True show ?thesis by (intro exI[of _ "length L"]) simp
  next
    case False
    with snoc.prems have "memo_of L x = Some v" by (simp add: memo_of_snoc)
    from snoc.IH[OF this] obtain j where "j < length L" "c_node (L ! j) = x" "c_result (L ! j) = v"
      by blast
    then show ?thesis by (intro exI[of _ j]) (simp add: nth_append)
  qed
qed

lemma calls_ok_postorder:
  assumes "calls_ok h fn kw L" "i < length L"
  shows "c_kwargs (L ! i) = kw \<and>
         (\<exists>w1 w2. fn w1 (c_node (L ! i)) (c_args (L ! i)) kw = Inr (c_result (L ! i), w2)) \<and>
         (\<exists>k<length h. c_node (L ! i) = PRef k \<and>
            length (c_args (L ! i)) = length (operands (h ! k)) \<and>
            (\<forall>m<length (operands (h ! k)). \<exists>j<i.
               c_node (L ! j) = operands (h ! k) ! m \<and> c_result (L ! j) = c_args (L ! i) ! m))"
proof -
  from assms have c: "call_ok h fn kw (take i L) (L ! i)" by (simp add: calls_ok_def)
  then obtain k where k: "c_node (L ! i) = PRef k" "k < length h"
    "lookup_all (memo_of (take i L)) (operands (h ! k)) = Inr (c_args (L ! i))"
    unfolding call_ok_def by blast
  from lookup_all_nth[OF k(3)] have len: "length (c_args (L ! i)) = length (operands (h ! k))"
    and each: "\<forall>m<length (operands (h ! k)).
       memo_of (take i L) (operands (h ! k) ! m) = Some (c_args (L ! i) ! m)"
    by blast+
  have "\<exists>j<i. c_node (L ! j) = operands (h ! k) ! m \<and> c_result (L ! j) = c_args (L ! i) ! m"
    if "m < length (operands (h ! k))" for m
  proof -
    from each that have "memo_of (take i L) (operands (h ! k) ! m) = Some (c_args (L ! i) ! m)"
      by blast
    from memo_of_Some[OF this] assms(2) show ?thesis by auto
  qed
  with k len c show ?thesis unfolding call_ok_def by blast
qed



section \<open>The differentiation rules build nodes\<close>

lemma Expression_init_refs:
  "Expression_init k [PRef a, PRef b] w =
     Inr (PRef (length (nodes w)), w\<lparr>nodes := nodes w @ [operator_node k [PRef a, PRef b]]\<rparr>)"
  by (simp add: Expression_init_def alloc_def)

lemma Number_init_int:
  "Number_init (PInt i) w =
     Inr (PRef (length (nodes w)), w\<lparr>nodes := nodes w @ [number_node (PInt i)]\<rparr>)"
  by (simp add: Number_init_def alloc_def)

lemma succeeds_then:
  "succeeds h m \<Longrightarrow> (\<And>x w1. prefix h (nodes w1) \<Longrightarrow> succeeds h (f x w1)) \<Longrightarrow>
   succeeds h (then_do m f)"
  by (auto simp: succeeds_def then_do_def)

lemma succeeds_index:
  "prefix h (nodes w) \<Longrightarrow> i < length c \<Longrightarrow> succeeds h (pure_do (index c i) w)"
  by (simp add: succeeds_def pure_do_def index_def)

lemma succeeds_operand:
  "prefix h (nodes w) \<Longrightarrow> k < length h \<Longrightarrow> i < length (operands (h ! k)) \<Longrightarrow>
   succeeds h (pure_do (operand w (PRef k) i) w)"
  by (simp add: succeeds_def pure_do_def operand_def get_operands_inv index_def)

lemma succeeds_Number:
  "prefix h (nodes w) \<Longrightarrow> is_Num v \<Longrightarrow> succeeds h (Number_init v w)"
  by (simp add: succeeds_def Number_init_def alloc_def prefix_order.trans)

lemma box_operands_succeeds:
  "prefix h (nodes w) \<Longrightarrow> \<exists>l w'. box_operands xs w = Inr (l, w') \<and> prefix h (nodes w')"
proof (induction xs arbitrary: w)
  case Nil
  then show ?case by simp
next
  case (Cons x xs)
  show ?case
  proof (cases "is_Num x")
    case True
    let ?w1 = "w\<lparr>nodes := nodes w @ [\<lparr>kind = NumberK, payload = Some x, operands = []\<rparr>]\<rparr>"
    from Cons.prems have "prefix h (nodes ?w1)" by (simp add: prefix_order.trans)
    from Cons.IH[OF this] obtain l w' where
      "box_operands xs ?w1 = Inr (l, w')" "prefix h (nodes w')" by blast
    with True show ?thesis by (simp add: Number_init_def alloc_def)
  next
    case False
    from Cons.IH[OF Cons.prems] obtain l w' where
      "box_operands xs w = Inr (l, w')" "prefix h (nodes w')" by blast
    with False show ?thesis by simp
  qed
qed

lemma succeeds_Expression:
  assumes "prefix h (nodes w)"
  shows "succeeds h (Expression_init k args w)"
proof -
  from box_operands_succeeds[OF assms] obtain l w' where
    "box_operands args w = Inr (l, w')" "prefix h (nodes w')" by blast
  then show ?thesis
    by (simp add: succeeds_def Expression_init_def alloc_def prefix_order.trans)
qed

lemmas succeeds_intros = succeeds_then succeeds_index succeeds_operand succeeds_Number
  succeeds_Expression

lemma extends_then:
  "extends w m \<Longrightarrow> (\<And>x w1. prefix (nodes w) (nodes w1) \<Longrightarrow> extends w1 (f x w1)) \<Longrightarrow>
   extends w (then_do m f)"
  unfolding extends_def then_do_def
  by (auto split: sum.splits intro: prefix_order.trans)

lemma extends_pure: "extends w (pure_do x w)"
  by (auto simp: extends_def pure_do_def split: sum.splits)

lemma extends_Number: "extends w (Number_init v w)"
  by (auto simp: extends_def Number_init_def alloc_def)

lemma box_operands_extends:
  "box_operands xs w = Inr (l, w') \<Longrightarrow> prefix (nodes w) (nodes w')"
proof (induction xs arbitrary: w l)
  case Nil
  then show ?case by simp
next
  case (Cons x xs)
  show ?case
  proof (cases "is_Num x")
    case True
    let ?w1 = "w\<lparr>nodes := nodes w @ [\<lparr>kind = NumberK, payload = Some x, operands = []\<rparr>]\<rparr>"
    from Cons.prems True obtain l1 where "box_operands xs ?w1 = Inr (l1, w')"
      by (auto simp: Number_init_def alloc_def split: sum.splits)
    from Cons.IH[OF this] have "prefix (nodes ?w1) (nodes w')" .
    then show ?thesis by (simp add: append_prefixD)
  next
    case False
    with Cons.prems obtain l1 where "box_operands xs w = Inr (l1, w')"
      by (auto split: sum.splits)
    from Cons.IH[OF this] show ?thesis .
  qed
qed

lemma extends_Expression: "extends w (Expression_init k args w)"
  unfolding extends_def Expression_init_def alloc_def
  by (auto split: sum.splits dest!: box_operands_extends intro: prefix_order.trans)

lemmas extends_intros = extends_then extends_pure extends_Number extends_Expression

lemma differentiate_extends: "extends w (differentiate w expr c kw)"
proof (cases "class_of w expr")
  case (Inl e)
  then show ?thesis by (simp add: differentiate_def extends_def)
next
  case (Inr k)
  then show ?thesis
  proof (cases "dispatch k")
    case NumberRule
    with Inr show ?thesis by (simp add: differentiate_def diff_Number_def extends_Number)
  next
    case SymbolRule
    with Inr show ?thesis
      by (auto simp: differentiate_def diff_Symbol_def extends_Number split: option.splits sum.splits)
        (simp add: extends_def)+
  next
    case AddRule
    with Inr show ?thesis by (simp add: differentiate_def diff_Add_def) (intro extends_intros)
  next
    case SubRule
    with Inr show ?thesis by (simp add: differentiate_def diff_Sub_def) (intro extends_intros)
  next
    case MulRule
    with Inr show ?thesis by (simp add: differentiate_def diff_Mul_def) (intro extends_intros)
  next
    case DivRule
    with Inr show ?thesis by (simp add: differentiate_def diff_Div_def) (intro extends_intros)
  next
    case PowRule
    with Inr show ?thesis by (simp add: differentiate_def diff_Pow_def) (intro extends_intros)
  next
    case DefaultRule
    with Inr show ?thesis by (simp add: differentiate_def extends_def)
  qed
qed

lemma differentiate_preserves: "fn_preserves differentiate"
  using differentiate_extends unfolding fn_preserves_def extends_def by blast

lemma differentiate_succeeds:
  assumes pre: "prefix h (nodes w)" and k: "k < length h" and d: "differentiable (h ! k)"
    and len: "length cs = length (operands (h ! k))" and var: "kw ''var'' = Some var"
  shows "succeeds h (differentiate w (PRef k) cs kw)"
proof -
  from pre k have cls: "class_of w (PRef k) = Inr (kind (h ! k))"
    by (auto simp: class_of_def prefix_nth dest: prefix_length_le)
  show ?thesis
  proof (cases "dispatch (kind (h ! k))")
    case NumberRule
    with cls pre show ?thesis by (simp add: differentiate_def diff_Number_def succeeds_Number)
  next
    case SymbolRule
    with d obtain s where "payload (h ! k) = Some (PStr s)"
      by (auto simp: differentiable_def split: option.splits pyval.splits)
    with pre k have "symbol_is w (PRef k) var = Inr (var = PStr s)"
      by (auto simp: symbol_is_def get_node_def prefix_nth dest: prefix_length_le)
    with SymbolRule cls pre var show ?thesis
      by (simp add: differentiate_def diff_Symbol_def succeeds_Number)
  next
    case AddRule
    with d len have "length cs = 2" by (simp add: differentiable_def)
    with AddRule cls pre show ?thesis
      by (simp add: differentiate_def diff_Add_def) (intro succeeds_intros; simp)
  next
    case SubRule
    with d len have "length cs = 2" by (simp add: differentiable_def)
    with SubRule cls pre show ?thesis
      by (simp add: differentiate_def diff_Sub_def) (intro succeeds_intros; simp)
  next
    case MulRule
    with d len have "length cs = 2" "length (operands (h ! k)) = 2" by (simp_all add: differentiable_def)
    with MulRule cls pre k show ?thesis
      by (simp add: differentiate_def diff_Mul_def) (intro succeeds_intros; simp)
  next
    case DivRule
    with d len have "length cs = 2" "length (operands (h ! k)) = 2" by (simp_all add: differentiable_def)
    with DivRule cls pre k show ?thesis
      by (simp add: differentiate_def diff_Div_def) (intro succeeds_intros; simp)
  next
    case PowRule
    with d len have "length cs = 2" "length (operands (h ! k)) = 2" by (simp_all add: differentiable_def)
    with PowRule cls pre k show ?thesis
      by (simp add: differentiate_def diff_Pow_def) (intro succeeds_intros; simp)
  next
    case DefaultRule
    with d show ?thesis by (simp add: differentiable_def)
  qed
qed

lemma yields_ref_then: "(\<And>x w1. yields_ref (f x w1)) \<Longrightarrow> yields_ref (then_do m f)"
  by (auto simp: yields_ref_def then_do_def split: sum.splits)

lemma yields_ref_Number: "yields_ref (Number_init v w)"
  by (auto simp: yields_ref_def Number_init_def alloc_def)

lemma yields_ref_Expression: "yields_ref (Expression_init k args w)"
  by (auto simp: yields_ref_def Expression_init_def alloc_def split: sum.splits)

lemmas yields_ref_intros = yields_ref_then yields_ref_Number yields_ref_Expression

lemma differentiate_yields_ref: "yields_ref (differentiate w expr c kw)"
proof (cases "class_of w expr")
  case (Inl e)
  then show ?thesis by (simp add: differentiate_def yields_ref_def)
next
  case (Inr k)
  then show ?thesis
  proof (cases "dispatch k")
    case NumberRule
    with Inr show ?thesis by (simp add: differentiate_def diff_Number_def yields_ref_Number)
  next
    case SymbolRule
    with Inr show ?thesis
      by (auto simp: differentiate_def diff_Symbol_def yields_ref_Number split: option.splits sum.splits)
        (simp add: yields_ref_def)+
  next
    case AddRule
    with Inr show ?thesis by (simp add: differentiate_def diff_Add_def) (intro yields_ref_intros)
  next
    case SubRule
    with Inr show ?thesis by (simp add: differentiate_def diff_Sub_def) (intro yields_ref_intros)
  next
    case MulRule
    with Inr show ?thesis by (simp add: differentiate_def diff_Mul_def) (intro yields_ref_intros)
  next
    case DivRule
    with Inr show ?thesis by (simp add: differentiate_def diff_Div_def) (intro yields_ref_intros)
  next
    case PowRule
    with Inr show ?thesis by (simp add: differentiate_def diff_Pow_def) (intro yields_ref_intros)
  next
    case DefaultRule
    with Inr show ?thesis by (simp add: differentiate_def yields_ref_def)
  qed
qed

lemma box_operands_shape:
  "box_operands xs w = Inr (l, w') \<Longrightarrow>
   length l = length xs \<and>
   (\<exists>ns. nodes w' = nodes w @ ns \<and> list_all (\<lambda>n. kind n = NumberK \<and> operands n = []) ns)"
proof (induction xs arbitrary: w l)
  case Nil
  then show ?case by simp
next
  case (Cons x xs)
  show ?case
  proof (cases "is_Num x")
    case True
    let ?w1 = "w\<lparr>nodes := nodes w @ [number_node x]\<rparr>"
    from Cons.prems True obtain l1 where l1: "box_operands xs ?w1 = Inr (l1, w')"
      and l: "l = PRef (length (nodes w)) # l1"
      by (auto simp: Number_init_def alloc_def split: sum.splits)
    from Cons.IH[OF l1] obtain ns where "length l1 = length xs" "nodes w' = nodes ?w1 @ ns"
      "list_all (\<lambda>n. kind n = NumberK \<and> operands n = []) ns" by blast
    then show ?thesis using l
      by (intro conjI exI[of _ "number_node x # ns"]) simp_all
  next
    case False
    with Cons.prems obtain l1 where l1: "box_operands xs w = Inr (l1, w')" and l: "l = x # l1"
      by (auto split: sum.splits)
    from Cons.IH[OF l1] l show ?thesis by simp
  qed
qed

lemma Expression_init_arity:
  assumes "Expression_init k [a, b] w = Inr (x, w')" "is_operator k"
    "list_all arity_ok (nodes w)"
  shows "list_all arity_ok (nodes w')"
proof -
  from assms(1) obtain l w1 where b: "box_operands [a, b] w = Inr (l, w1)"
    and w': "nodes w' = nodes w1 @ [operator_node k l]"
    by (auto simp: Expression_init_def alloc_def split: sum.splits)
  from box_operands_shape[OF b] obtain ns where l: "length l = 2" and
    ns: "nodes w1 = nodes w @ ns" "list_all (\<lambda>n. kind n = NumberK \<and> operands n = []) ns"
    by auto
  from ns(2) have "list_all arity_ok ns" by (auto simp: list_all_iff arity_ok_def)
  moreover from assms(2) l have "arity_ok (operator_node k l)"
    by (cases k) (simp_all add: arity_ok_def)
  ultimately show ?thesis using assms(3) w' ns(1) by simp
qed

lemma Expression_init_pair: "composes k e1 e2 w (Expression_init k [e1, e2] w)"
proof (cases "is_Num e1"; cases "is_Num e2")
  assume "is_Num e1" "is_Num e2"
  then show ?thesis
    unfolding composes_def boxed_def
    by (simp add: Expression_init_def Number_init_def alloc_def nth_append)
next
  assume "is_Num e1" "\<not> is_Num e2"
  then show ?thesis
    unfolding composes_def boxed_def
    by (simp add: Expression_init_def Number_init_def alloc_def nth_append)
next
  assume "\<not> is_Num e1" "is_Num e2"
  then show ?thesis
    unfolding composes_def boxed_def
    by (simp add: Expression_init_def Number_init_def alloc_def nth_append)
next
  assume "\<not> is_Num e1" "\<not> is_Num e2"
  then show ?thesis
    unfolding composes_def boxed_def
    by (simp add: Expression_init_def Number_init_def alloc_def nth_append)
qed

section \<open>Constructors keep the store well-formed\<close>

text \<open>
  A node is built from values that exist already, so its operands are below it: the
  constructors, applied to numbers and to expressions of the store, keep \<open>heap_ok\<close>.
\<close>

lemma heap_ok_snoc: "heap_ok (h @ [n]) \<longleftrightarrow> heap_ok h \<and> refs_below (length h) (operands n)"
  by (simp add: heap_ok_def enumerate_append_eq)

lemma box_operands_heap_ok:
  "heap_ok (nodes w) \<Longrightarrow> \<forall>a\<in>set xs. expr_or_num w a \<Longrightarrow> box_operands xs w = Inr (l, w') \<Longrightarrow>
   heap_ok (nodes w') \<and> refs_below (length (nodes w')) l"
proof (induction xs arbitrary: w l)
  case Nil
  then show ?case by (simp add: refs_below_def)
next
  case (Cons x xs)
  show ?case
  proof (cases "is_Num x")
    case True
    let ?w1 = "w\<lparr>nodes := nodes w @ [number_node x]\<rparr>"
    from Cons.prems(3) True obtain l1 where l1: "box_operands xs ?w1 = Inr (l1, w')"
      and l: "l = PRef (length (nodes w)) # l1"
      by (auto simp: Number_init_def alloc_def split: sum.splits)
    have ok1: "heap_ok (nodes ?w1)"
      using Cons.prems(1) by (simp add: heap_ok_snoc refs_below_def)
    have args1: "\<forall>a\<in>set xs. expr_or_num ?w1 a"
      using Cons.prems(2) by (auto simp: expr_or_num_def)
    from Cons.IH[OF ok1 args1 l1] have *: "heap_ok (nodes w')" "refs_below (length (nodes w')) l1"
      by blast+
    from box_operands_extends[OF l1] have "length (nodes ?w1) \<le> length (nodes w')"
      by (rule prefix_length_le)
    with * l show ?thesis by (simp add: refs_below_def)
  next
    case False
    with Cons.prems(3) obtain l1 where l1: "box_operands xs w = Inr (l1, w')" and l: "l = x # l1"
      by (auto split: sum.splits)
    from Cons.prems(2) have args: "\<forall>a\<in>set xs. expr_or_num w a" by simp
    from Cons.IH[OF Cons.prems(1) args l1] have *: "heap_ok (nodes w')"
      "refs_below (length (nodes w')) l1" by blast+
    from Cons.prems(2) False obtain r where r: "x = PRef r" "r < length (nodes w)"
      by (auto simp: expr_or_num_def)
    from box_operands_extends[OF l1] have "length (nodes w) \<le> length (nodes w')"
      by (rule prefix_length_le)
    with * l r show ?thesis by (simp add: refs_below_def)
  qed
qed

lemma construction_heap_ok:
  assumes "heap_ok (nodes w)"
  shows "Number_init v w = Inr (x, w') \<Longrightarrow> heap_ok (nodes w')"
    and "Symbol_init v w = Inr (x, w') \<Longrightarrow> heap_ok (nodes w')"
    and "\<forall>a\<in>set args. expr_or_num w a \<Longrightarrow> Expression_init k args w = Inr (x, w') \<Longrightarrow>
         heap_ok (nodes w')"
proof -
  show "Number_init v w = Inr (x, w') \<Longrightarrow> heap_ok (nodes w')"
    using assms by (auto simp: Number_init_def alloc_def heap_ok_snoc refs_below_def split: if_splits)
  show "Symbol_init v w = Inr (x, w') \<Longrightarrow> heap_ok (nodes w')"
    using assms by (auto simp: Symbol_init_def alloc_def heap_ok_snoc refs_below_def split: if_splits)
  assume a: "\<forall>a\<in>set args. expr_or_num w a" and e: "Expression_init k args w = Inr (x, w')"
  from e obtain l w1 where b: "box_operands args w = Inr (l, w1)"
    and w': "nodes w' = nodes w1 @ [operator_node k l]"
    by (auto simp: Expression_init_def alloc_def split: sum.splits)
  from box_operands_heap_ok[OF assms a b] w' show "heap_ok (nodes w')"
    by (simp add: heap_ok_snoc)
qed

section \<open>The postorder visitor: claims\<close>

text \<open>
  C1. The claim: \<^verbatim>\<open>fn\<close> is invoked once for each distinct node, also when the node is an
  operand of two parents. The code does not do this. In \<^verbatim>\<open>x + x * a\<close> the node \<^verbatim>\<open>x\<close> is
  pushed under the product, and pushed again as an operand of the product, before it is
  visited; each entry is then popped with nothing left to visit below it, and each time the
  function is called. For every function without effects the calls are on \<^verbatim>\<open>a\<close>,
  \<^verbatim>\<open>x\<close>, the product, \<^verbatim>\<open>x\<close> again, and the sum: five calls for four nodes.
\<close>

theorem postvisitor_revisits_shared_node:
  "map_option (map_sum id (\<lambda>(v, w', L). map c_node L))
     (postvisitor shared_store (pure_visitor f) (PRef 3) kw) =
   Some (Inr [PRef 1, PRef 0, PRef 2, PRef 0, PRef 3])"
  by (simp add: postvisitor_def postvisitor_loop.simps postvisitor_step_def shared_store_def
      Let_def get_operands_def get_node_def pure_visitor_def)

text \<open>
  C3. On a well-formed store, with a function that leaves the existing nodes alone,
  \<^verbatim>\<open>postvisitor\<close> returns. If it raises, the exception is one that the function raised.
  If it returns normally, the last call of the function was on the root and its result is
  the value returned; every call got the keyword arguments of the traversal; and every
  call was on a node of the store, with one argument for each operand, which is the result
  of an earlier call on that operand.
\<close>

theorem postvisitor_postorder:
  assumes "heap_ok (nodes w)" and "r < length (nodes w)" and "fn_preserves fn"
  shows "\<exists>res. postvisitor w fn (PRef r) kw = Some res \<and>
     (\<forall>e. res = Inl e \<longrightarrow> (\<exists>w1 k cs. fn w1 (PRef k) cs kw = Inl e)) \<and>
     (\<forall>v w' L. res = Inr (v, w', L) \<longrightarrow>
        L \<noteq> [] \<and> c_node (last L) = PRef r \<and> c_result (last L) = v \<and>
        (\<forall>i<length L.
           c_kwargs (L ! i) = kw \<and>
           (\<exists>w1 w2. fn w1 (c_node (L ! i)) (c_args (L ! i)) kw = Inr (c_result (L ! i), w2)) \<and>
           (\<exists>k<length (nodes w). c_node (L ! i) = PRef k \<and>
              length (c_args (L ! i)) = length (operands (nodes w ! k)) \<and>
              (\<forall>m<length (operands (nodes w ! k)). \<exists>j<i.
                 c_node (L ! j) = operands (nodes w ! k) ! m \<and>
                 c_result (L ! j) = c_args (L ! i) ! m))))"
  using postvisitor_main[OF assms, of kw]
proof (elim disjE exE conjE)
  fix e assume "postvisitor w fn (PRef r) kw = Some (Inl e)" "raised_by (nodes w) fn kw r e"
  then show ?thesis unfolding raised_by_def by auto
next
  fix v w' L
  assume a: "postvisitor w fn (PRef r) kw = Some (Inr (v, w', L))" "L \<noteq> []"
    "c_node (last L) = PRef r" "c_result (last L) = v" "calls_ok (nodes w) fn kw L"
  show ?thesis
    using a(1-4) calls_ok_postorder[OF a(5)] by simp
qed

theorem postvisitor_postorder_witness:
  "heap_ok (nodes shared_store) \<and> 3 < length (nodes shared_store) \<and> fn_preserves count_nodes \<and>
   map_option (map_sum id (\<lambda>(v, w', L). (v, c_node (last L), c_result (last L))))
     (postvisitor shared_store count_nodes (PRef 3) Map.empty) = Some (Inr (5, PRef 3, 5))"
proof -
  have h: "heap_ok (nodes shared_store)"
    by (simp add: heap_ok_def refs_below_def shared_store_def)
  have r: "3 < length (nodes shared_store)" by (simp add: shared_store_def)
  have p: "fn_preserves count_nodes"
    by (simp add: fn_preserves_def count_nodes_def pure_visitor_def)
  from postvisitor_postorder[OF h r p, of Map.empty] h r p show ?thesis
    by (simp add: postvisitor_def postvisitor_loop.simps postvisitor_step_def shared_store_def
      Let_def get_operands_def get_node_def pure_visitor_def count_nodes_def)
qed

text \<open>
  C9. On a finite acyclic expression graph, with a function that returns on every call
  (every function of the model does) and leaves the existing nodes alone, the loop of
  \<^verbatim>\<open>postvisitor\<close> ends, whatever the value it is started on. The loop keeps its work
  list in \<open>stack\<close> and calls nothing but the function.
\<close>

theorem postvisitor_terminates:
  assumes "heap_ok (nodes w)" and "fn_preserves fn"
  shows "\<exists>res. postvisitor w fn expr kw = Some res"
proof (cases "\<exists>r. expr = PRef r \<and> r < length (nodes w)")
  case True
  then obtain r where "expr = PRef r" "r < length (nodes w)" by blast
  with postvisitor_main[OF assms(1) this(2) assms(2), of kw] show ?thesis by auto
next
  case False
  then have "\<exists>e. get_operands w expr = Inl e"
    by (cases expr) (auto simp: get_operands_def get_node_def)
  then obtain e where "get_operands w expr = Inl e" ..
  then have "postvisitor_step fn kw \<lparr>stack = [expr], visited = Map.empty, world = w, calls = []\<rparr>
      = Inl e"
    by (simp add: postvisitor_step_def)
  then have "postvisitor_loop fn kw \<lparr>stack = [expr], visited = Map.empty, world = w, calls = []\<rparr>
      = Some (Inl e)"
    by (intro loop_raise) simp_all
  then show ?thesis by (simp add: postvisitor_def)
qed

theorem postvisitor_terminates_witness:
  "heap_ok (nodes shared_store) \<and> fn_preserves count_nodes \<and>
   (\<exists>res. postvisitor shared_store count_nodes (PRef 3) Map.empty = Some res)"
proof -
  have h: "heap_ok (nodes shared_store)"
    by (simp add: heap_ok_def refs_below_def shared_store_def)
  have p: "fn_preserves count_nodes"
    by (simp add: fn_preserves_def count_nodes_def pure_visitor_def)
  from postvisitor_terminates[OF h p] h p show ?thesis by blast
qed

section \<open>Differentiation: claims\<close>

text \<open>
  C2. The claim: \<^verbatim>\<open>differentiate(expr, var)\<close> is an entry point that equals
  \<^verbatim>\<open>postvisitor(expr, diff_rule, var=var)\<close>. In the code \<^verbatim>\<open>differentiate\<close> is the rule
  itself, with the signature \<^verbatim>\<open>(expr, *c, **kwargs)\<close>. Called as
  \<^verbatim>\<open>differentiate(expr, "x")\<close> on the sum \<^verbatim>\<open>x + x * a\<close> it takes \<^verbatim>\<open>"x"\<close> for the only
  child result and raises IndexError at \<^verbatim>\<open>c[1]\<close>, where the traversal returns an
  expression.
\<close>

theorem differentiate_direct_call_differs:
  "differentiate shared_store (PRef 3) [PStr ''x''] Map.empty = Inl IndexError \<and>
   map_option (map_sum id fst)
     (postvisitor shared_store differentiate (PRef 3) [''var'' \<mapsto> PStr ''x'']) =
   Some (Inr (PRef 10))"
  by (simp add: postvisitor_def postvisitor_loop.simps postvisitor_step_def shared_store_def
      Let_def get_operands_def get_node_def differentiate_def class_of_def diff_Symbol_def
      diff_Mul_def diff_Add_def symbol_is_def Number_init_def alloc_def then_do_def
      pure_do_def index_def operand_def Expression_init_def)

text \<open>
  C2, as the code has it. The derivative of an expression is
  \<^verbatim>\<open>postvisitor(expr, differentiate, var=var)\<close>. On a well-formed store whose nodes the
  rules accept, this call returns an expression: a reference into the store it leaves,
  which extends the store it started from. The expression is what \<^verbatim>\<open>differentiate\<close>
  returned for the root.
\<close>

theorem differentiate_via_postvisitor:
  fixes w :: "'a store_scheme"
  assumes ok: "heap_ok (nodes w)" and d: "list_all differentiable (nodes w)"
    and r: "r < length (nodes w)" and var: "kw ''var'' = Some var"
  shows "\<exists>r' w' L. postvisitor w differentiate (PRef r) kw = Some (Inr (PRef r', w', L)) \<and>
           r' < length (nodes w') \<and> prefix (nodes w) (nodes w') \<and>
           (\<exists>w1 args. differentiate w1 (PRef r) args kw = Inr (PRef r', w'))"
  using postvisitor_main[OF ok r differentiate_preserves, of kw]
proof (elim disjE exE conjE)
  fix e assume "raised_by (nodes w) (differentiate :: (pyval, 'a) visitor) kw r e"
  then obtain w1 :: "'a store_scheme" and k cs where k: "k < length (nodes w)" "prefix (nodes w) (nodes w1)"
    "length cs = length (operands (nodes w ! k))" "differentiate w1 (PRef k) cs kw = Inl e"
    unfolding raised_by_def by blast
  from d k(1) have "differentiable (nodes w ! k)" by (simp add: list_all_length)
  with k(2) k(1) have "succeeds (nodes w) (differentiate w1 (PRef k) cs kw)"
    using k(3) var by (rule differentiate_succeeds)
  with k(4) show ?thesis by (simp add: succeeds_def)
next
  fix v w' L w1 args
  assume a: "postvisitor w differentiate (PRef r) kw = Some (Inr (v, w', L))"
    "prefix (nodes w) (nodes w')" "differentiate w1 (PRef r) args kw = Inr (v, w')"
  from differentiate_yields_ref[of w1 "PRef r" args kw] a(3)
  obtain r' where "r' < length (nodes w')" "v = PRef r'" by (auto simp: yields_ref_def)
  with a show ?thesis by blast
qed

theorem differentiate_via_postvisitor_witness:
  "heap_ok (nodes shared_store) \<and> list_all differentiable (nodes shared_store) \<and>
   3 < length (nodes shared_store) \<and> [''var'' \<mapsto> PStr ''x''] ''var'' = Some (PStr ''x'') \<and>
   (\<exists>r' w' L. postvisitor shared_store differentiate (PRef 3) [''var'' \<mapsto> PStr ''x''] =
        Some (Inr (PRef r', w', L)))"
proof -
  have h: "heap_ok (nodes shared_store)"
    by (simp add: heap_ok_def refs_below_def shared_store_def)
  have d: "list_all differentiable (nodes shared_store)"
    by (simp add: differentiable_def shared_store_def)
  have r: "3 < length (nodes shared_store)" by (simp add: shared_store_def)
  have v: "[''var'' \<mapsto> PStr ''x''] ''var'' = Some (PStr ''x'')" by simp
  from differentiate_via_postvisitor[where w = shared_store and r = 3
      and kw = "[''var'' \<mapsto> PStr ''x'']" and var = "PStr ''x''", OF h d r v] h d r v
  show ?thesis by blast
qed

text \<open>
  C4. The rule of each class, on a node at any position of any store. \<open>c0\<close> and \<open>c1\<close>
  are the derivatives of the operands, \<open>a\<close> and \<open>b\<close> the operands themselves, \<open>n\<close> the
  first free position. Each rule returns the last node it builds:
  \<^item> Number: \<^verbatim>\<open>Number(0)\<close>;
  \<^item> Symbol: \<^verbatim>\<open>Number(1)\<close> if the name is \<^verbatim>\<open>var\<close>, else \<^verbatim>\<open>Number(0)\<close>;
  \<^item> Add, Sub: \<^verbatim>\<open>Add(c0, c1)\<close>, \<^verbatim>\<open>Sub(c0, c1)\<close>;
  \<^item> Mul: \<^verbatim>\<open>Add(Mul(c0, b), Mul(c1, a))\<close>, on the operands \<open>a\<close>, \<open>b\<close> themselves;
  \<^item> Div: \<^verbatim>\<open>Div(Sub(Mul(c0, b), Mul(c1, a)), Pow(b, Number(2)))\<close>;
  \<^item> Pow: \<^verbatim>\<open>Mul(b, Pow(a, Sub(b, Number(1))))\<close>, for any child results \<open>c\<close>.
  The nodes built are exactly these; nothing is simplified.
\<close>

theorem differentiate_rules:
  fixes w :: "'a store_scheme"
  shows
   "(let h = ns @ \<lparr>kind = NumberK, payload = p, operands = ops\<rparr> # ms; n = length h in
       differentiate (w\<lparr>nodes := h\<rparr>) (PRef (length ns)) c kw =
         Inr (PRef n, w\<lparr>nodes := h @ [number_node (PInt 0)]\<rparr>)) \<and>
    (let h = ns @ \<lparr>kind = SymbolK, payload = Some (PStr s), operands = ops\<rparr> # ms;
         n = length h in
       differentiate (w\<lparr>nodes := h\<rparr>) (PRef (length ns)) c (kw(''var'' \<mapsto> var)) =
         Inr (PRef n, w\<lparr>nodes := h @ [number_node (PInt (if PStr s = var then 1 else 0))]\<rparr>)) \<and>
    (let h = ns @ \<lparr>kind = AddK, payload = p, operands = ops\<rparr> # ms; n = length h in
       differentiate (w\<lparr>nodes := h\<rparr>) (PRef (length ns)) [PRef c0, PRef c1] kw =
         Inr (PRef n, w\<lparr>nodes := h @ [operator_node AddK [PRef c0, PRef c1]]\<rparr>)) \<and>
    (let h = ns @ \<lparr>kind = SubK, payload = p, operands = ops\<rparr> # ms; n = length h in
       differentiate (w\<lparr>nodes := h\<rparr>) (PRef (length ns)) [PRef c0, PRef c1] kw =
         Inr (PRef n, w\<lparr>nodes := h @ [operator_node SubK [PRef c0, PRef c1]]\<rparr>)) \<and>
    (let h = ns @ \<lparr>kind = MulK, payload = p, operands = [PRef a, PRef b]\<rparr> # ms;
         n = length h in
       differentiate (w\<lparr>nodes := h\<rparr>) (PRef (length ns)) [PRef c0, PRef c1] kw =
         Inr (PRef (n + 2), w\<lparr>nodes := h @
                [operator_node MulK [PRef c0, PRef b],
                 operator_node MulK [PRef c1, PRef a],
                 operator_node AddK [PRef n, PRef (n + 1)]]\<rparr>)) \<and>
    (let h = ns @ \<lparr>kind = DivK, payload = p, operands = [PRef a, PRef b]\<rparr> # ms;
         n = length h in
       differentiate (w\<lparr>nodes := h\<rparr>) (PRef (length ns)) [PRef c0, PRef c1] kw =
         Inr (PRef (n + 5), w\<lparr>nodes := h @
                [operator_node MulK [PRef c0, PRef b],
                 operator_node MulK [PRef c1, PRef a],
                 operator_node SubK [PRef n, PRef (n + 1)],
                 number_node (PInt 2),
                 operator_node PowK [PRef b, PRef (n + 3)],
                 operator_node DivK [PRef (n + 2), PRef (n + 4)]]\<rparr>)) \<and>
    (let h = ns @ \<lparr>kind = PowK, payload = p, operands = [PRef a, PRef b]\<rparr> # ms;
         n = length h in
       differentiate (w\<lparr>nodes := h\<rparr>) (PRef (length ns)) c kw =
         Inr (PRef (n + 3), w\<lparr>nodes := h @
                [number_node (PInt 1),
                 operator_node SubK [PRef b, PRef n],
                 operator_node PowK [PRef a, PRef (n + 1)],
                 operator_node MulK [PRef b, PRef (n + 2)]]\<rparr>))"
proof -
  note defs = Let_def differentiate_def class_of_def then_do_def pure_do_def index_def
    Expression_init_refs Number_init_int nth_append operand_def get_operands_def get_node_def
  have "differentiate (w\<lparr>nodes := ns @ \<lparr>kind = NumberK, payload = p, operands = ops\<rparr> # ms\<rparr>)
          (PRef (length ns)) c kw =
        Inr (PRef (length (ns @ \<lparr>kind = NumberK, payload = p, operands = ops\<rparr> # ms)),
             w\<lparr>nodes := (ns @ \<lparr>kind = NumberK, payload = p, operands = ops\<rparr> # ms) @
                [number_node (PInt 0)]\<rparr>)"
    by (simp add: defs diff_Number_def)
  moreover have "differentiate
          (w\<lparr>nodes := ns @ \<lparr>kind = SymbolK, payload = Some (PStr s), operands = ops\<rparr> # ms\<rparr>)
          (PRef (length ns)) c (kw(''var'' \<mapsto> var)) =
        Inr (PRef (length (ns @ \<lparr>kind = SymbolK, payload = Some (PStr s), operands = ops\<rparr> # ms)),
             w\<lparr>nodes := (ns @ \<lparr>kind = SymbolK, payload = Some (PStr s), operands = ops\<rparr> # ms) @
                [number_node (PInt (if PStr s = var then 1 else 0))]\<rparr>)"
    by (auto simp: defs diff_Symbol_def symbol_is_def get_node_def)
  moreover have "differentiate (w\<lparr>nodes := ns @ \<lparr>kind = AddK, payload = p, operands = ops\<rparr> # ms\<rparr>)
          (PRef (length ns)) [PRef c0, PRef c1] kw =
        Inr (PRef (length (ns @ \<lparr>kind = AddK, payload = p, operands = ops\<rparr> # ms)),
             w\<lparr>nodes := (ns @ \<lparr>kind = AddK, payload = p, operands = ops\<rparr> # ms) @
                [operator_node AddK [PRef c0, PRef c1]]\<rparr>)"
    by (simp add: defs diff_Add_def)
  moreover have "differentiate (w\<lparr>nodes := ns @ \<lparr>kind = SubK, payload = p, operands = ops\<rparr> # ms\<rparr>)
          (PRef (length ns)) [PRef c0, PRef c1] kw =
        Inr (PRef (length (ns @ \<lparr>kind = SubK, payload = p, operands = ops\<rparr> # ms)),
             w\<lparr>nodes := (ns @ \<lparr>kind = SubK, payload = p, operands = ops\<rparr> # ms) @
                [operator_node SubK [PRef c0, PRef c1]]\<rparr>)"
    by (simp add: defs diff_Sub_def)
  moreover have "differentiate
          (w\<lparr>nodes := ns @ \<lparr>kind = MulK, payload = p, operands = [PRef a, PRef b]\<rparr> # ms\<rparr>)
          (PRef (length ns)) [PRef c0, PRef c1] kw =
        Inr (PRef (length (ns @ \<lparr>kind = MulK, payload = p, operands = [PRef a, PRef b]\<rparr> # ms) + 2),
             w\<lparr>nodes := (ns @ \<lparr>kind = MulK, payload = p, operands = [PRef a, PRef b]\<rparr> # ms) @
                [operator_node MulK [PRef c0, PRef b],
                 operator_node MulK [PRef c1, PRef a],
                 operator_node AddK
                   [PRef (length (ns @ \<lparr>kind = MulK, payload = p, operands = [PRef a, PRef b]\<rparr> # ms)),
                    PRef (length (ns @ \<lparr>kind = MulK, payload = p, operands = [PRef a, PRef b]\<rparr> # ms) + 1)]]\<rparr>)"
    by (simp add: defs diff_Mul_def)
  moreover have "differentiate
          (w\<lparr>nodes := ns @ \<lparr>kind = DivK, payload = p, operands = [PRef a, PRef b]\<rparr> # ms\<rparr>)
          (PRef (length ns)) [PRef c0, PRef c1] kw =
        Inr (PRef (length (ns @ \<lparr>kind = DivK, payload = p, operands = [PRef a, PRef b]\<rparr> # ms) + 5),
             w\<lparr>nodes := (ns @ \<lparr>kind = DivK, payload = p, operands = [PRef a, PRef b]\<rparr> # ms) @
                [operator_node MulK [PRef c0, PRef b],
                 operator_node MulK [PRef c1, PRef a],
                 operator_node SubK
                   [PRef (length (ns @ \<lparr>kind = DivK, payload = p, operands = [PRef a, PRef b]\<rparr> # ms)),
                    PRef (length (ns @ \<lparr>kind = DivK, payload = p, operands = [PRef a, PRef b]\<rparr> # ms) + 1)],
                 number_node (PInt 2),
                 operator_node PowK
                   [PRef b,
                    PRef (length (ns @ \<lparr>kind = DivK, payload = p, operands = [PRef a, PRef b]\<rparr> # ms) + 3)],
                 operator_node DivK
                   [PRef (length (ns @ \<lparr>kind = DivK, payload = p, operands = [PRef a, PRef b]\<rparr> # ms) + 2),
                    PRef (length (ns @ \<lparr>kind = DivK, payload = p, operands = [PRef a, PRef b]\<rparr> # ms) + 4)]]\<rparr>)"
    by (simp add: defs diff_Div_def)
  moreover have "differentiate
          (w\<lparr>nodes := ns @ \<lparr>kind = PowK, payload = p, operands = [PRef a, PRef b]\<rparr> # ms\<rparr>)
          (PRef (length ns)) c kw =
        Inr (PRef (length (ns @ \<lparr>kind = PowK, payload = p, operands = [PRef a, PRef b]\<rparr> # ms) + 3),
             w\<lparr>nodes := (ns @ \<lparr>kind = PowK, payload = p, operands = [PRef a, PRef b]\<rparr> # ms) @
                [number_node (PInt 1),
                 operator_node SubK
                   [PRef b,
                    PRef (length (ns @ \<lparr>kind = PowK, payload = p, operands = [PRef a, PRef b]\<rparr> # ms))],
                 operator_node PowK
                   [PRef a,
                    PRef (length (ns @ \<lparr>kind = PowK, payload = p, operands = [PRef a, PRef b]\<rparr> # ms) + 1)],
                 operator_node MulK
                   [PRef b,
                    PRef (length (ns @ \<lparr>kind = PowK, payload = p, operands = [PRef a, PRef b]\<rparr> # ms) + 2)]]\<rparr>)"
    by (simp add: defs diff_Pow_def)
  ultimately show ?thesis unfolding Let_def by blast
qed

theorem differentiate_rules_witness:
  "differentiate product_store (PRef 2) [PRef 3, PRef 4] Map.empty =
     Inr (PRef 7,
          \<lparr>nodes = [symbol_node ''x'', symbol_node ''a'',
                    operator_node MulK [PRef 0, PRef 1],
                    number_node (PInt 1), number_node (PInt 0),
                    operator_node MulK [PRef 3, PRef 1],
                    operator_node MulK [PRef 4, PRef 0],
                    operator_node AddK [PRef 5, PRef 6]]\<rparr>)"
  using differentiate_rules[where ns = "[symbol_node ''x'', symbol_node ''a'']" and p = None
      and ms = "[number_node (PInt 1), number_node (PInt 0)]" and w = "\<lparr>nodes = []\<rparr>"
      and kw = Map.empty and ?c0.0 = 3 and ?c1.0 = 4 and a = 0 and b = 1
      and ops = "[]" and c = "[]" and s = "''x''" and var = PNone]
  by (simp add: Let_def product_store_def eval_nat_numeral)




section \<open>Construction: claims\<close>

text \<open>
  C6. \<^verbatim>\<open>Number(v)\<close> succeeds exactly when \<open>v\<close> is an instance of \<^verbatim>\<open>numbers.Number\<close>,
  and raises TypeError otherwise; \<^verbatim>\<open>Symbol(name)\<close> succeeds exactly when \<open>name\<close> is
  text, and raises TypeError otherwise. \<^verbatim>\<open>Symbol(42)\<close> and \<^verbatim>\<open>Number("abc")\<close> raise
  TypeError.
\<close>

theorem Number_Symbol_construction:
  "((\<exists>res. Number_init v w = Inr res) \<longleftrightarrow> is_Num v) \<and>
   (\<not> is_Num v \<longrightarrow> Number_init v w = Inl TypeError) \<and>
   ((\<exists>res. Symbol_init name w = Inr res) \<longleftrightarrow> is_str name) \<and>
   (\<not> is_str name \<longrightarrow> Symbol_init name w = Inl TypeError) \<and>
   Symbol_init (PInt 42) w = Inl TypeError \<and>
   Number_init (PStr ''abc'') w = Inl TypeError"
  by (simp add: Number_init_def Symbol_init_def)

theorem Number_Symbol_construction_witness:
  "\<not> is_Num (PStr ''abc'') \<and> \<not> is_str (PInt 42) \<and>
   Number_init (PStr ''abc'') x_store = Inl TypeError \<and>
   Symbol_init (PInt 42) x_store = Inl TypeError"
  using Number_Symbol_construction[of "PStr ''abc''" x_store "PInt 42"] by simp

text \<open>
  C7. \<^verbatim>\<open>e1 OP e2\<close> is \<^verbatim>\<open>e1.__op__(e2)\<close> when \<open>e1\<close> is an expression, and
  \<^verbatim>\<open>e2.__rop__(e1)\<close> when \<open>e1\<close> is a number and \<open>e2\<close> an expression. Either way the
  result is a new node of the class of the operator whose operands are \<open>e1\<close> and \<open>e2\<close> in
  this order, a number boxed in a new Number node and anything else kept as it is. So
  \<^verbatim>\<open>k - e\<close> for a number \<open>k\<close> has the operands \<^verbatim>\<open>(Number(k), e)\<close>.
\<close>

theorem composition_operands:
  "composes AddK e1 e2 w (Expression_add e1 e2 w) \<and>
   composes SubK e1 e2 w (Expression_sub e1 e2 w) \<and>
   composes MulK e1 e2 w (Expression_mul e1 e2 w) \<and>
   composes DivK e1 e2 w (Expression_truediv e1 e2 w) \<and>
   composes PowK e1 e2 w (Expression_pow e1 e2 w) \<and>
   composes AddK e1 e2 w (Expression_radd e2 e1 w) \<and>
   composes SubK e1 e2 w (Expression_rsub e2 e1 w) \<and>
   composes MulK e1 e2 w (Expression_rmul e2 e1 w) \<and>
   composes DivK e1 e2 w (Expression_rtruediv e2 e1 w) \<and>
   composes PowK e1 e2 w (Expression_rpow e2 e1 w) \<and>
   (is_Num k \<longrightarrow>
      Expression_rsub (PRef e) k w =
        Inr (PRef (length (nodes w) + 1),
             w\<lparr>nodes := nodes w @
                [number_node k, operator_node SubK [PRef (length (nodes w)), PRef e]]\<rparr>))"
  by (simp add: Expression_add_def Expression_sub_def Expression_mul_def Expression_truediv_def
      Expression_pow_def Expression_radd_def Expression_rsub_def Expression_rmul_def
      Expression_rtruediv_def Expression_rpow_def Expression_init_pair)
    (simp add: Expression_init_def Number_init_def alloc_def)

theorem composition_operands_witness:
  "is_Num (PInt 5) \<and>
   Expression_rsub (PRef 0) (PInt 5) x_store =
     Inr (PRef 2, \<lparr>nodes = [symbol_node ''x'', number_node (PInt 5),
                            operator_node SubK [PRef 1, PRef 0]]\<rparr>)"
  using composition_operands[of "PInt 5" "PRef 0" x_store "PInt 5" 0]
  by (simp add: x_store_def)

text \<open>
  C8. The claim: every operator node that a constructor builds has two operands. The
  constructor of an operator is \<^verbatim>\<open>Expression.__init__(self, *operands)\<close>, which stores as
  many operands as it is given: \<^verbatim>\<open>Add(x)\<close> is an Add node with one operand.
\<close>

theorem operator_constructor_one_operand:
  "Expression_init AddK [PRef 0] x_store =
     Inr (PRef 1, \<lparr>nodes = [symbol_node ''x'', operator_node AddK [PRef 0]]\<rparr>) \<and>
   \<not> arity_ok (operator_node AddK [PRef 0])"
  by (simp add: Expression_init_def alloc_def x_store_def arity_ok_def)

text \<open>
  C8, as the code has it. In every store built by the constructors of Number and Symbol,
  the arithmetic methods, and the constructors of the operators called with two
  operands, every Number and every Symbol has no operands and every operator has two.
\<close>

theorem constructed_arity:
  assumes "constructed w"
  shows "list_all arity_ok (nodes w)"
  using assms
proof (induction rule: constructed.induct)
  case (c_empty w)
  then show ?case by simp
next
  case (c_Number w v x w')
  then show ?case by (auto simp: Number_init_def alloc_def arity_ok_def split: if_splits)
next
  case (c_Symbol w v x w')
  then show ?case by (auto simp: Symbol_init_def alloc_def arity_ok_def split: if_splits)
next
  case (c_operator w k a b x w')
  then show ?case using Expression_init_arity by blast
next
  case (c_add w a b x w')
  then show ?case using Expression_init_arity[of AddK a b w x w'] by (simp add: Expression_add_def)
next
  case (c_sub w a b x w')
  then show ?case using Expression_init_arity[of SubK a b w x w'] by (simp add: Expression_sub_def)
next
  case (c_mul w a b x w')
  then show ?case using Expression_init_arity[of MulK a b w x w'] by (simp add: Expression_mul_def)
next
  case (c_truediv w a b x w')
  then show ?case using Expression_init_arity[of DivK a b w x w'] by (simp add: Expression_truediv_def)
next
  case (c_pow w a b x w')
  then show ?case using Expression_init_arity[of PowK a b w x w'] by (simp add: Expression_pow_def)
next
  case (c_radd w a b x w')
  then show ?case using Expression_init_arity[of AddK b a w x w'] by (simp add: Expression_radd_def)
next
  case (c_rsub w a b x w')
  then show ?case using Expression_init_arity[of SubK b a w x w'] by (simp add: Expression_rsub_def)
next
  case (c_rmul w a b x w')
  then show ?case using Expression_init_arity[of MulK b a w x w'] by (simp add: Expression_rmul_def)
next
  case (c_rtruediv w a b x w')
  then show ?case using Expression_init_arity[of DivK b a w x w'] by (simp add: Expression_rtruediv_def)
next
  case (c_rpow w a b x w')
  then show ?case using Expression_init_arity[of PowK b a w x w'] by (simp add: Expression_rpow_def)
qed

theorem constructed_arity_witness:
  "constructed difference_store \<and> list_all arity_ok (nodes difference_store) \<and>
   kind (nodes difference_store ! 2) = SubK \<and>
   length (operands (nodes difference_store ! 2)) = 2 \<and>
   kind (nodes difference_store ! 3) = MulK \<and>
   length (operands (nodes difference_store ! 3)) = 2"
proof -
  let ?w0 = "\<lparr>nodes = []\<rparr> :: store"
  let ?w2 = "\<lparr>nodes = [symbol_node ''x'', number_node (PInt 5),
                        operator_node SubK [PRef 1, PRef 0]]\<rparr> :: store"
  have "constructed ?w0" by (rule c_empty) simp
  moreover have "Symbol_init (PStr ''x'') ?w0 = Inr (PRef 0, x_store)"
    by (simp add: Symbol_init_def alloc_def x_store_def)
  ultimately have "constructed x_store" by (rule c_Symbol)
  moreover have "Expression_rsub (PRef 0) (PInt 5) x_store = Inr (PRef 2, ?w2)"
    by (simp add: Expression_rsub_def Expression_init_def Number_init_def alloc_def x_store_def)
  ultimately have "constructed ?w2" by (rule c_rsub)
  moreover have "is_operator MulK" by simp
  moreover have "Expression_init MulK [PRef 0, PRef 2] ?w2 = Inr (PRef 3, difference_store)"
    by (simp add: Expression_init_def alloc_def difference_store_def)
  ultimately have c: "constructed difference_store" by (rule c_operator)
  from constructed_arity[OF c] c show ?thesis by (simp add: difference_store_def)
qed

text \<open>
  C10. \<^verbatim>\<open>Symbol("")\<close> succeeds: the constructor only checks that its argument is text, so
  the empty name gives a Symbol node whose value is the empty string and whose operands are
  empty.
\<close>

theorem Symbol_init_empty_name:
  "Symbol_init (PStr []) w =
     Inr (PRef (length (nodes w)),
          w\<lparr>nodes := nodes w @ [\<lparr>kind = SymbolK, payload = Some (PStr []), operands = []\<rparr>]\<rparr>)"
  by (simp add: Symbol_init_def alloc_def)

end
